theory Spec2Isabelle
  imports Main "HOL-Library.AList"
begin

section \<open>Python values: errors and loops\<close>

text \<open>
  The notebooks are Python. An exception is a value of type \<open>error\<close>, and a computation
  that may raise returns \<open>error + 'a\<close> with \<open>Inl\<close> for the exception.
\<close>

datatype error = NameError | ValueError | IndexError | OverflowError

definition and_then :: "error + 'a \<Rightarrow> ('a \<Rightarrow> error + 'b) \<Rightarrow> error + 'b" where
  "and_then m f = (case m of Inl e \<Rightarrow> Inl e | Inr x \<Rightarrow> f x)"

text \<open>A \<^verbatim>\<open>for x in xs: body\<close> loop over a state; an exception in the body ends it.\<close>

fun for_each :: "('a \<Rightarrow> 's \<Rightarrow> error + 's) \<Rightarrow> 'a list \<Rightarrow> 's \<Rightarrow> error + 's" where
  "for_each body [] s = Inr s"
| "for_each body (x # xs) s = and_then (body x s) (for_each body xs)"

section \<open>Minimum edit distance (chapter_02_edit_distance.ipynb)\<close>

subsection \<open>Numbers\<close>

text \<open>
  The table is \<open>np.zeros((n,m))\<close>, an array of float64, and every cell the loops write is
  a cell plus a cost. A cost is whatever number the caller passes (the defaults are the
  Python integers 1, 1 and 2). Adding it to a float64 first converts it to a float64, which
  raises \<open>OverflowError\<close> for an integer too large for one, and then adds with rounding.
  This arithmetic belongs to Python and numpy, not to the notebook; it is a parameter of
  the model:
  \<^item> \<open>can_convert c\<close>: the cost \<open>c\<close> has a float64 value;
  \<^item> \<open>plus_cost v c\<close>: the float64 that \<open>v + c\<close> evaluates to when it has.

  The type \<open>'c\<close> of costs has the integer \<open>0\<close> that \<open>substitution_logic\<close> returns; the
  type \<open>'v\<close> of cells has the \<open>0.0\<close> of \<open>np.zeros\<close> and the order \<open>min\<close> compares in.
  That order is linear on every float64 but NaN, which no sum of a cell and a cost is
  unless the cost is NaN or an infinity meets the opposite one.
\<close>

record ('c, 'v) arithmetic =
  can_convert :: "'c \<Rightarrow> bool"
  plus_cost :: "'v \<Rightarrow> 'c \<Rightarrow> 'v"

definition add_cost :: "('c, 'v) arithmetic \<Rightarrow> 'v \<Rightarrow> 'c \<Rightarrow> error + 'v" where
  "add_cost A cell cost =
     (if can_convert A cost then Inr (plus_cost A cell cost) else Inl OverflowError)"

subsection \<open>The functions of the notebook\<close>

text \<open>
  \<^verbatim>\<open>
  def substitution_logic(source_letter, target_letter, cost):
      if source_letter == target_letter:
          return 0
      else:
          return cost
  \<close>
\<close>

definition substitution_logic :: "'a \<Rightarrow> 'a \<Rightarrow> 'c::zero \<Rightarrow> 'c" where
  "substitution_logic source_letter target_letter cost =
     (if source_letter = target_letter then 0 else cost)"

text \<open>
  The table is a two-dimensional array, a list of rows. \<open>np.zeros((n, m))\<close> makes it;
  reading or writing a cell outside the array raises \<open>IndexError\<close>. The rows and columns
  the loops visit start at 1, so no negative index is ever formed.
\<close>

type_synonym 'v table = "'v list list"

definition zeros :: "nat \<Rightarrow> nat \<Rightarrow> 'v::zero table" where
  "zeros n m = replicate n (replicate m 0)"

definition get_item :: "'v table \<Rightarrow> nat \<Rightarrow> nat \<Rightarrow> error + 'v" where
  "get_item t row col =
     (if row < length t \<and> col < length (t ! row) then Inr (t ! row ! col) else Inl IndexError)"

definition set_item :: "'v table \<Rightarrow> nat \<Rightarrow> nat \<Rightarrow> 'v \<Rightarrow> error + 'v table" where
  "set_item t row col v =
     (if row < length t \<and> col < length (t ! row)
      then Inr (t[row := (t ! row)[col := v]]) else Inl IndexError)"

definition char_at :: "string \<Rightarrow> nat \<Rightarrow> error + char" where
  "char_at s i = (if i < length s then Inr (s ! i) else Inl IndexError)"

text \<open>
  The body of \<open>min_edit_distance\<close> up to the filled table:
  \<^verbatim>\<open>
  def min_edit_distance(source, target, insert_cost=1, delete_cost=1, substitute_cost=2):
      source = '#{}'.format(source)
      target = '#{}'.format(target)
      n = len(source)
      m = len(target)
      table = np.zeros((n,m))
      for row in range(1,n):
          table[row,0] = table[row-1,0] + delete_cost
      for col in range(1,m):
          table[0, col] = table[0, col-1] + insert_cost
      for row, col in itertools.product(range(1,n), range(1,m)):
          table[row, col] = min(table[row-1,col] + delete_cost,
                                table[row-1,col-1] + substitution_logic(source[row], target[col], substitute_cost),
                                table[row, col-1] + insert_cost)
  \<close>
  The three arguments of \<open>min\<close> are evaluated from left to right, each sum after the
  cell it reads.
\<close>

definition first_column_step ::
  "('c, 'v) arithmetic \<Rightarrow> 'c \<Rightarrow> nat \<Rightarrow> 'v table \<Rightarrow> error + 'v table" where
  "first_column_step A delete_cost row t =
     and_then (get_item t (row - 1) 0) (\<lambda>above.
     and_then (add_cost A above delete_cost) (\<lambda>v.
       set_item t row 0 v))"

definition first_row_step ::
  "('c, 'v) arithmetic \<Rightarrow> 'c \<Rightarrow> nat \<Rightarrow> 'v table \<Rightarrow> error + 'v table" where
  "first_row_step A insert_cost col t =
     and_then (get_item t 0 (col - 1)) (\<lambda>left.
     and_then (add_cost A left insert_cost) (\<lambda>v.
       set_item t 0 col v))"

definition cell_step ::
  "('c::zero, 'v::linorder) arithmetic \<Rightarrow> string \<Rightarrow> string \<Rightarrow> 'c \<Rightarrow> 'c \<Rightarrow> 'c \<Rightarrow>
     nat \<times> nat \<Rightarrow> 'v table \<Rightarrow> error + 'v table" where
  "cell_step A source target insert_cost delete_cost substitute_cost rc t =
     (case rc of (row, col) \<Rightarrow>
        and_then (get_item t (row - 1) col) (\<lambda>above.
        and_then (add_cost A above delete_cost) (\<lambda>by_deletion.
        and_then (get_item t (row - 1) (col - 1)) (\<lambda>diagonal.
        and_then (char_at source row) (\<lambda>source_letter.
        and_then (char_at target col) (\<lambda>target_letter.
        and_then (add_cost A diagonal
                    (substitution_logic source_letter target_letter substitute_cost))
          (\<lambda>by_substitution.
        and_then (get_item t row (col - 1)) (\<lambda>left.
        and_then (add_cost A left insert_cost) (\<lambda>by_insertion.
          set_item t row col (min by_deletion (min by_substitution by_insertion)))))))))))"

definition fill_table ::
  "('c::zero, 'v::{zero, linorder}) arithmetic \<Rightarrow> string \<Rightarrow> string \<Rightarrow> 'c \<Rightarrow> 'c \<Rightarrow> 'c \<Rightarrow>
     error + 'v table" where
  "fill_table A source0 target0 insert_cost delete_cost substitute_cost =
     (let source = CHR ''#'' # source0;
          target = CHR ''#'' # target0;
          n = length source;
          m = length target;
          table = zeros n m
      in and_then (for_each (first_column_step A delete_cost) [1..<n] table) (\<lambda>table.
         and_then (for_each (first_row_step A insert_cost) [1..<m] table) (\<lambda>table.
           for_each (cell_step A source target insert_cost delete_cost substitute_cost)
             (List.product [1..<n] [1..<m]) table)))"

text \<open>
  The function ends by wrapping an array in a labelled data frame and returning the frame:
  \<^verbatim>\<open>
      df = pd.DataFrame(res, columns=list(target), dtype=int)
      df.index = list(source)
      return df
  \<close>
  The array it wraps is \<open>res\<close>, a name the function never binds, so Python reads the
  notebook's global of that name; \<open>table\<close> is not used again. The global is a parameter
  of the model: \<open>None\<close> when the name is unbound (a \<open>NameError\<close>), otherwise a
  two-dimensional array. pandas raises \<open>ValueError\<close> when the array does not have
  one column per column label or one row per index label. What the specification says of
  the table and of the distance is stated below of the local \<open>table\<close> and of its cell
  \<open>[len(source)][len(target)]\<close>.
\<close>

record data_frame =
  df_columns :: string
  df_index :: string
  df_values :: "int list list"

definition labelled_frame :: "int list list \<Rightarrow> string \<Rightarrow> string \<Rightarrow> error + data_frame" where
  "labelled_frame array column_labels index_labels =
     (if (\<forall>row \<in> set array. length row = length column_labels) \<and>
         length array = length index_labels
      then Inr \<lparr>df_columns = column_labels, df_index = index_labels, df_values = array\<rparr>
      else Inl ValueError)"

definition min_edit_distance ::
  "('c::zero, 'v::{zero, linorder}) arithmetic \<Rightarrow> int list list option \<Rightarrow> string \<Rightarrow> string \<Rightarrow>
     'c \<Rightarrow> 'c \<Rightarrow> 'c \<Rightarrow> error + data_frame" where
  "min_edit_distance A res source0 target0 insert_cost delete_cost substitute_cost =
     and_then (fill_table A source0 target0 insert_cost delete_cost substitute_cost) (\<lambda>table.
       case res of
         None \<Rightarrow> Inl NameError
       | Some array \<Rightarrow> labelled_frame array (CHR ''#'' # target0) (CHR ''#'' # source0))"

subsection \<open>float64 on integers\<close>

text \<open>
  The arithmetic for integer costs, which is what the notebook calls the function with.
  Every cell is then a float64 with an integer value, or an infinity after an overflow:
  \<open>Finite k\<close> is the float64 whose value is the integer \<open>k\<close>. A float64 has 53
  significant bits, so every integer up to \<open>2 ^ 53\<close> in magnitude is one, and a larger one
  is rounded to the nearest integer with 53 significant bits, to the even one of two
  nearest (\<open>round53\<close>). Converting an integer that rounds to \<open>2 ^ 1024\<close> or more, which
  are those of magnitude \<open>2 ^ 1024 - 2 ^ 970\<close> and above, raises \<open>OverflowError\<close>; a sum
  that rounds so far is an infinity.
\<close>

datatype float64 = NegInf | Finite int | PosInf

fun float64_le :: "float64 \<Rightarrow> float64 \<Rightarrow> bool" where
  "float64_le NegInf y = True"
| "float64_le x PosInf = True"
| "float64_le (Finite a) (Finite b) = (a \<le> b)"
| "float64_le x y = False"

instantiation float64 :: "{zero, linorder}"
begin

definition zero_float64 :: float64 where
  "zero_float64 = Finite 0"

definition less_eq_float64 :: "float64 \<Rightarrow> float64 \<Rightarrow> bool" where
  "less_eq_float64 x y = float64_le x y"

definition less_float64 :: "float64 \<Rightarrow> float64 \<Rightarrow> bool" where
  "less_float64 x y = (float64_le x y \<and> \<not> float64_le y x)"

instance
proof
  fix x y z :: float64
  show "(x < y) = (x \<le> y \<and> \<not> y \<le> x)"
    by (simp add: less_float64_def less_eq_float64_def)
  show "x \<le> x"
    by (cases x) (simp_all add: less_eq_float64_def)
  show "x \<le> y \<Longrightarrow> y \<le> z \<Longrightarrow> x \<le> z"
    by (cases x; cases y; cases z) (simp_all add: less_eq_float64_def)
  show "x \<le> y \<Longrightarrow> y \<le> x \<Longrightarrow> x = y"
    by (cases x; cases y) (simp_all add: less_eq_float64_def)
  show "x \<le> y \<or> y \<le> x"
    by (cases x; cases y) (auto simp: less_eq_float64_def)
qed

end

function bit_length :: "int \<Rightarrow> nat" where
  "bit_length x = (if x \<le> 0 then 0 else Suc (bit_length (x div 2)))"
  by pat_completeness auto
termination
  by (relation "measure nat") auto

definition round53 :: "int \<Rightarrow> int" where
  "round53 x =
     (if \<bar>x\<bar> \<le> 2 ^ 53 then x
      else let e = bit_length \<bar>x\<bar> - 53;
               q = \<bar>x\<bar> div 2 ^ e;
               r = \<bar>x\<bar> mod 2 ^ e;
               up = (2 ^ (e - 1) < r \<or> (r = 2 ^ (e - 1) \<and> odd q))
           in sgn x * ((if up then q + 1 else q) * 2 ^ e))"

definition float64_sum :: "float64 \<Rightarrow> int \<Rightarrow> float64" where
  "float64_sum v c =
     (case v of
        Finite a \<Rightarrow>
          let y = round53 (a + round53 c)
          in if 2 ^ 1024 \<le> y then PosInf else if y \<le> - (2 ^ 1024) then NegInf else Finite y
      | PosInf \<Rightarrow> PosInf
      | NegInf \<Rightarrow> NegInf)"

definition float64_ints :: "(int, float64) arithmetic" where
  "float64_ints =
     \<lparr>can_convert = (\<lambda>c. \<bar>c\<bar> < 2 ^ 1024 - 2 ^ 970), plus_cost = float64_sum\<rparr>"

subsection \<open>The recurrence the table tabulates\<close>

text \<open>
  The recurrence of the dynamic programme as a function of two lists, read from the head,
  in the arithmetic of the table. Cell \<open>[i][j]\<close> of the filled table is its value at the
  reversed prefixes of length \<open>i\<close> and \<open>j\<close> (\<open>prefix_value\<close>). \<open>lev\<close> is the same
  recurrence on integers without rounding. All three are devices of the proofs below; no
  claim is stated about them alone.
\<close>

fun table_value ::
  "('c::zero, 'v::{zero, linorder}) arithmetic \<Rightarrow> 'c \<Rightarrow> 'c \<Rightarrow> 'c \<Rightarrow> 'a list \<Rightarrow> 'a list \<Rightarrow> 'v" where
  "table_value A ic dc sc [] [] = 0"
| "table_value A ic dc sc (x # xs) [] = plus_cost A (table_value A ic dc sc xs []) dc"
| "table_value A ic dc sc [] (y # ys) = plus_cost A (table_value A ic dc sc [] ys) ic"
| "table_value A ic dc sc (x # xs) (y # ys) =
     min (plus_cost A (table_value A ic dc sc xs (y # ys)) dc)
       (min (plus_cost A (table_value A ic dc sc xs ys) (substitution_logic x y sc))
            (plus_cost A (table_value A ic dc sc (x # xs) ys) ic))"

definition prefix_value ::
  "('c::zero, 'v::{zero, linorder}) arithmetic \<Rightarrow> 'c \<Rightarrow> 'c \<Rightarrow> 'c \<Rightarrow> 'a list \<Rightarrow> 'a list \<Rightarrow>
     nat \<Rightarrow> nat \<Rightarrow> 'v" where
  "prefix_value A ic dc sc s t i j = table_value A ic dc sc (rev (take i s)) (rev (take j t))"

fun lev :: "int \<Rightarrow> int \<Rightarrow> int \<Rightarrow> 'a list \<Rightarrow> 'a list \<Rightarrow> int" where
  "lev ic dc sc [] [] = 0"
| "lev ic dc sc (x # xs) [] = lev ic dc sc xs [] + dc"
| "lev ic dc sc [] (y # ys) = lev ic dc sc [] ys + ic"
| "lev ic dc sc (x # xs) (y # ys) =
     min (lev ic dc sc xs (y # ys) + dc)
       (min (lev ic dc sc xs ys + substitution_logic x y sc)
            (lev ic dc sc (x # xs) ys + ic))"

text \<open>
  For the loop invariants: a table of \<open>n\<close> rows of \<open>m\<close> cells, and a table of that shape
  whose cells marked \<open>done\<close> hold the values \<open>D\<close>.
\<close>

definition shape :: "'v table \<Rightarrow> nat \<Rightarrow> nat \<Rightarrow> bool" where
  "shape t n m \<longleftrightarrow> length t = n \<and> (\<forall>row \<in> set t. length row = m)"

definition filled ::
  "(nat \<Rightarrow> nat \<Rightarrow> 'v) \<Rightarrow> (nat \<Rightarrow> nat \<Rightarrow> bool) \<Rightarrow> nat \<Rightarrow> nat \<Rightarrow> 'v table \<Rightarrow> bool" where
  "filled D done n m t \<longleftrightarrow> shape t n m \<and> (\<forall>i<n. \<forall>j<m. done i j \<longrightarrow> t ! i ! j = D i j)"

text \<open>
  The costs the loops add, by the rows and columns there are: \<open>delete_cost\<close> when the
  source is not empty, \<open>insert_cost\<close> when the target is not empty, and for every letter of
  the source and every letter of the target what \<open>substitution_logic\<close> returns for them.
\<close>

definition costs_convert ::
  "('c::zero, 'v) arithmetic \<Rightarrow> string \<Rightarrow> string \<Rightarrow> 'c \<Rightarrow> 'c \<Rightarrow> 'c \<Rightarrow> bool" where
  "costs_convert A source target insert_cost delete_cost substitute_cost \<longleftrightarrow>
     (source \<noteq> [] \<longrightarrow> can_convert A delete_cost) \<and>
     (target \<noteq> [] \<longrightarrow> can_convert A insert_cost) \<and>
     (\<forall>x \<in> set source. \<forall>y \<in> set target.
        can_convert A (substitution_logic x y substitute_cost))"

subsection \<open>Edit scripts\<close>

text \<open>
  What the specification calls a sequence of single-symbol insertions, deletions and
  substitutions transforming the source into the target: a list of edits, each at a
  position of the current sequence, applied one after the other. An edit at a position
  that does not exist cannot be applied. Each insertion costs \<open>insert_cost\<close>, each
  deletion \<open>delete_cost\<close> and each substitution \<open>substitute_cost\<close>.
\<close>

datatype 'a edit = Insert nat 'a | Delete nat | Substitute nat 'a

fun apply_edit :: "'a edit \<Rightarrow> 'a list \<Rightarrow> 'a list option" where
  "apply_edit (Insert i c) xs = (if i \<le> length xs then Some (take i xs @ c # drop i xs) else None)"
| "apply_edit (Delete i) xs = (if i < length xs then Some (take i xs @ drop (Suc i) xs) else None)"
| "apply_edit (Substitute i c) xs = (if i < length xs then Some (xs[i := c]) else None)"

fun apply_edits :: "'a edit list \<Rightarrow> 'a list \<Rightarrow> 'a list option" where
  "apply_edits [] xs = Some xs"
| "apply_edits (e # es) xs = (case apply_edit e xs of None \<Rightarrow> None | Some ys \<Rightarrow> apply_edits es ys)"

fun edit_cost :: "int \<Rightarrow> int \<Rightarrow> int \<Rightarrow> 'a edit \<Rightarrow> int" where
  "edit_cost ic dc sc (Insert i c) = ic"
| "edit_cost ic dc sc (Delete i) = dc"
| "edit_cost ic dc sc (Substitute i c) = sc"

definition script_cost :: "int \<Rightarrow> int \<Rightarrow> int \<Rightarrow> 'a edit list \<Rightarrow> int" where
  "script_cost ic dc sc es = sum_list (map (edit_cost ic dc sc) es)"

section \<open>Byte-pair encoding (Chapter_02_words_and_tokens.ipynb)\<close>

subsection \<open>Python strings and dictionaries\<close>

text \<open>
  A string is a list of characters, each character one code point below 256.
  \<open>str.split()\<close> without an argument cuts a string at every run of whitespace and
  returns the non-empty pieces; \<open>sep.join(xs)\<close> puts \<open>sep\<close> between the elements.
\<close>

definition whitespace :: "char list" where
  "whitespace = [CHR 0x09, CHR 0x0A, CHR 0x0B, CHR 0x0C, CHR 0x0D, CHR 0x1C, CHR 0x1D,
                 CHR 0x1E, CHR 0x1F, CHR 0x20, CHR 0x85, CHR 0xA0]"

definition is_space :: "char \<Rightarrow> bool" where
  "is_space c \<longleftrightarrow> c \<in> set whitespace"

fun split_from :: "string \<Rightarrow> string \<Rightarrow> string list" where
  "split_from word [] = (if word = [] then [] else [word])"
| "split_from word (c # cs) =
     (if is_space c then (if word = [] then split_from [] cs else word # split_from [] cs)
      else split_from (word @ [c]) cs)"

definition str_split :: "string \<Rightarrow> string list" where
  "str_split s = split_from [] s"

fun str_join :: "string \<Rightarrow> string list \<Rightarrow> string" where
  "str_join sep [] = []"
| "str_join sep [x] = x"
| "str_join sep (x # y # ys) = x @ sep @ str_join sep (y # ys)"

text \<open>
  A \<open>dict\<close>, a \<open>Counter\<close> and a \<open>defaultdict(int)\<close> keep their keys in the order of
  first insertion, which is the order \<open>items()\<close>, \<open>keys()\<close> and \<open>max\<close> iterate in. They
  are association lists with distinct keys: \<open>d[k] = v\<close> is \<open>AList.update k v d\<close> (in
  place when the key is there, at the end otherwise), and \<open>d[k] += v\<close> on a mapping whose
  missing values read as 0 is \<open>AList.map_default k (0 + v) (\<lambda>c. c + v) d\<close>.
\<close>

type_synonym token_frequency = "(string \<times> int) list"

type_synonym pair_count = "((string \<times> string) \<times> int) list"

text \<open>
  \<open>max(pairs, key=pairs.get)\<close>: the first key, in iteration order, whose value no other
  value exceeds; \<open>ValueError\<close> on an empty mapping.
\<close>

fun max_by_value :: "('k \<times> int) list \<Rightarrow> error + 'k" where
  "max_by_value [] = Inl ValueError"
| "max_by_value (kv # rest) =
     Inr (fst (fold (\<lambda>item best. if snd best < snd item then item else best) rest kv))"

subsection \<open>The tokenizer class\<close>

text \<open>
  \<^verbatim>\<open>
  class bpe_tokenizer(object):
      def __init__(self, corpus, n_merges=10):
          self.corpus = corpus
          self.n_merges = n_merges
          self.n_merges_done = 0
          self.token_counts = self.count_tokens()
          self.vocab = self.initialize_vocab()
  \<close>
\<close>

record bpe_tokenizer =
  corpus :: "string list"
  n_merges :: int
  n_merges_done :: int
  token_counts :: token_frequency
  vocab :: "string list"

text \<open>
  \<^verbatim>\<open>
      def make_bpe_style_tokens(self, token_counts):
          new_token_counts = dict()
          for key, value in token_counts.items():
              characters = list(key)
              characters += ['</W>']
              new_key = ' '.join(characters)
              new_token_counts[new_key] = value
          return new_token_counts
  \<close>
\<close>

definition make_bpe_style_tokens :: "token_frequency \<Rightarrow> token_frequency" where
  "make_bpe_style_tokens counts =
     fold (\<lambda>(key, value) new_token_counts.
             let characters = map (\<lambda>c. [c]) key @ [''</W>''];
                 new_key = str_join '' '' characters
             in AList.update new_key value new_token_counts)
       counts []"

text \<open>
  \<^verbatim>\<open>
      def count_tokens(self):
          tokenizer = Tokenizer(nlp.vocab)
          token_counts = Counter()
          for text in tokenizer.pipe(self.corpus):
              tokens = [t.text for t in text if not t.is_punct and not t.is_space]
              token_counts.update(tokens)
          bpe_token_counts = self.make_bpe_style_tokens(token_counts)
          return bpe_token_counts
  \<close>
  The spaCy tokenizer is outside the repository. \<open>tokens_of\<close> stands for it together with
  the filter: the texts of the tokens of one document that are neither punctuation nor space.
\<close>

definition count_tokens :: "(string \<Rightarrow> string list) \<Rightarrow> string list \<Rightarrow> token_frequency" where
  "count_tokens tokens_of texts =
     make_bpe_style_tokens
       (fold (\<lambda>text counts. fold (\<lambda>token. AList.map_default token (0 + 1) (\<lambda>c. c + 1))
                                (tokens_of text) counts)
          texts [])"

text \<open>
  \<^verbatim>\<open>
      def initialize_vocab(self):
          vocab = set()
          for token in self.token_counts.keys():
              characters = token.split()
              vocab.update(characters)
          return list(vocab)
  \<close>
  Python fixes no order for the elements of \<open>list(vocab)\<close>; the model lists each symbol
  once, in some order. The methods below only test membership in the vocabulary.
\<close>

definition initialize_vocab :: "token_frequency \<Rightarrow> string list" where
  "initialize_vocab counts = remdups (concat (map (\<lambda>(token, value). str_split token) counts))"

definition bpe_tokenizer_init :: "(string \<Rightarrow> string list) \<Rightarrow> string list \<Rightarrow> int \<Rightarrow> bpe_tokenizer" where
  "bpe_tokenizer_init tokens_of texts n =
     (let counts = count_tokens tokens_of texts
      in \<lparr>corpus = texts, n_merges = n, n_merges_done = 0, token_counts = counts,
          vocab = initialize_vocab counts\<rparr>)"

text \<open>
  \<^verbatim>\<open>
      def find_most_common_pair(self):
          pairs = defaultdict(int)
          for token, value in self.token_counts.items():
              characters = token.split()
              for index in range(len(characters)-1):
                  pairs[characters[index], characters[index+1]] += value
          most_common_pair = max(pairs, key=pairs.get)
          return most_common_pair
  \<close>
  Both indices are below \<open>len(characters)\<close> for every \<open>index\<close> of the range.
  \<open>count_token_pairs\<close> is the body of the outer loop, \<open>count_pairs\<close> the mapping
  \<open>pairs\<close> after both loops.
\<close>

definition count_token_pairs :: "string \<times> int \<Rightarrow> pair_count \<Rightarrow> pair_count" where
  "count_token_pairs item pairs =
     (case item of (token, value) \<Rightarrow>
        let characters = str_split token
        in fold (\<lambda>index. AList.map_default (characters ! index, characters ! (index + 1))
                            (0 + value) (\<lambda>c. c + value))
             [0..<length characters - 1] pairs)"

definition count_pairs :: "token_frequency \<Rightarrow> pair_count" where
  "count_pairs counts = fold count_token_pairs counts []"

definition find_most_common_pair :: "bpe_tokenizer \<Rightarrow> error + string \<times> string" where
  "find_most_common_pair self = max_by_value (count_pairs (token_counts self))"

text \<open>
  \<^verbatim>\<open>
      def modify_vocab(self, new_character):
          self.vocab.append(new_character)
  \<close>
\<close>

definition modify_vocab :: "bpe_tokenizer \<Rightarrow> string \<Rightarrow> bpe_tokenizer" where
  "modify_vocab self new_character = self\<lparr>vocab := vocab self @ [new_character]\<rparr>"

text \<open>
  \<^verbatim>\<open>
      def modify_tokens(self, new_character):
          modified_token_frequencies = dict()
          for token, value in self.token_counts.items():
              characters = token.split()
              new_characters = []
              while len(characters) > 1:
                  merged_characters = ''.join(characters[0:2])
                  if merged_characters in self.vocab:
                      new_characters.append(merged_characters)
                      characters.pop(1)
                      characters.pop(0)
                  else:
                      new_characters.append(characters[0])
                      characters.pop(0)
              if len(characters) == 1:
                  new_characters.append(characters[0])
              new_token = ' '.join(new_characters)
              modified_token_frequencies[new_token] = value
          self.token_counts = modified_token_frequencies
  \<close>
  The \<open>while\<close> loop is \<open>merge_scan\<close>, on the pair of \<open>characters\<close> and
  \<open>new_characters\<close>; \<open>rewrite_characters\<close> is the loop with the \<open>if\<close> after it, and
  \<open>modify_token\<close> the body of the \<open>for\<close> loop up to \<open>new_token\<close>. The method does not read its argument \<open>new_character\<close>: the scan
  joins two neighbours whenever their concatenation is in the vocabulary.
\<close>

fun merge_scan :: "string list \<Rightarrow> string list \<Rightarrow> string list \<Rightarrow> string list \<times> string list" where
  "merge_scan vocabulary (c0 # c1 # rest) new_characters =
     (if c0 @ c1 \<in> set vocabulary
      then merge_scan vocabulary rest (new_characters @ [c0 @ c1])
      else merge_scan vocabulary (c1 # rest) (new_characters @ [c0]))"
| "merge_scan vocabulary characters new_characters = (characters, new_characters)"

definition rewrite_characters :: "string list \<Rightarrow> string list \<Rightarrow> string list" where
  "rewrite_characters vocabulary characters0 =
     (case merge_scan vocabulary characters0 [] of
        (characters, new_characters) \<Rightarrow>
          if length characters = 1 then new_characters @ [characters ! 0] else new_characters)"

definition modify_token :: "string list \<Rightarrow> string \<Rightarrow> string" where
  "modify_token vocabulary token =
     str_join '' '' (rewrite_characters vocabulary (str_split token))"

definition modify_tokens :: "bpe_tokenizer \<Rightarrow> string \<Rightarrow> bpe_tokenizer" where
  "modify_tokens self new_character =
     self\<lparr>token_counts :=
       fold (\<lambda>(token, value) modified_token_frequencies.
               AList.update (modify_token (vocab self) token) value modified_token_frequencies)
         (token_counts self) []\<rparr>"

text \<open>
  \<^verbatim>\<open>
      def merge(self, n=None):
          if n is None:
              n=self.n_merges
          for i in range(n):
              pair = self.find_most_common_pair()
              merged_pair = ''.join(pair)
              self.modify_vocab(merged_pair)
              self.modify_tokens(merged_pair)
          self.n_merges_done += n
  \<close>
  \<open>merge_step\<close> is the body of the loop, one training step.
\<close>

definition merge_step :: "bpe_tokenizer \<Rightarrow> error + bpe_tokenizer" where
  "merge_step self =
     and_then (find_most_common_pair self) (\<lambda>pair.
       let merged_pair = fst pair @ snd pair
       in Inr (modify_tokens (modify_vocab self merged_pair) merged_pair))"

definition merge :: "bpe_tokenizer \<Rightarrow> int option \<Rightarrow> error + bpe_tokenizer" where
  "merge self n0 =
     (let n = (case n0 of None \<Rightarrow> n_merges self | Some k \<Rightarrow> k)
      in and_then (for_each (\<lambda>i. merge_step) [0..<nat n] self) (\<lambda>self.
           Inr (self\<lparr>n_merges_done := n_merges_done self + n\<rparr>)))"

text \<open>
  The example of the notebook:
  \<^verbatim>\<open>
  example_text = ['low'] * 5
  example_text += ['lowest'] * 2
  example_text += ['newer'] * 6
  example_text += ['wider'] * 3
  example_text += ['new'] * 2
  example_tokenizer = bpe_tokenizer(example_text)
  example_tokenizer.merge(n=8)
  \<close>
  Each text is one word, which the tokenizer returns as its only token.
\<close>

definition example_text :: "string list" where
  "example_text = replicate 5 ''low'' @ replicate 2 ''lowest'' @ replicate 6 ''newer'' @
                  replicate 3 ''wider'' @ replicate 2 ''new''"

definition one_token :: "string \<Rightarrow> string list" where
  "one_token text = [text]"

definition example_tokenizer :: bpe_tokenizer where
  "example_tokenizer = bpe_tokenizer_init one_token example_text 10"

subsection \<open>Notions of the specification\<close>

text \<open>
  The symbols of a key are the pieces \<open>str_split\<close> cuts it into. A state has no adjacent
  pair when every key has at most one symbol. \<open>step_times k\<close> applies the training step
  \<open>k\<close> times in a row, stopping at the first failure.
\<close>

definition no_adjacent_pair :: "bpe_tokenizer \<Rightarrow> bool" where
  "no_adjacent_pair self \<longleftrightarrow>
     (\<forall>(token, value) \<in> set (token_counts self). length (str_split token) \<le> 1)"

fun step_times :: "nat \<Rightarrow> bpe_tokenizer \<Rightarrow> error + bpe_tokenizer" where
  "step_times 0 self = Inr self"
| "step_times (Suc k) self = and_then (merge_step self) (step_times k)"

text \<open>
  The states a tokenizer can be in: the one the constructor builds, and every state a
  training step or a call of \<open>merge\<close> leads to from such a state.
\<close>

inductive reachable :: "(string \<Rightarrow> string list) \<Rightarrow> bpe_tokenizer \<Rightarrow> bool"
  for tokens_of :: "string \<Rightarrow> string list" where
  constructed: "reachable tokens_of (bpe_tokenizer_init tokens_of texts n)"
| stepped: "reachable tokens_of self \<Longrightarrow> merge_step self = Inr self' \<Longrightarrow> reachable tokens_of self'"
| merged: "reachable tokens_of self \<Longrightarrow> merge self n0 = Inr self' \<Longrightarrow> reachable tokens_of self'"

text \<open>
  The adjacent pairs of a list of symbols, left to right; the pairs of all keys in the
  order the scan of \<open>find_most_common_pair\<close> meets them; and the aggregate weighted
  count of a pair: over all keys, the key's frequency times the number of places where
  the pair occurs in the key.
\<close>

definition adjacent_pairs :: "'a list \<Rightarrow> ('a \<times> 'a) list" where
  "adjacent_pairs xs = zip xs (tl xs)"

definition scanned_pairs :: "token_frequency \<Rightarrow> (string \<times> string) list" where
  "scanned_pairs counts = concat (map (\<lambda>(token, value). adjacent_pairs (str_split token)) counts)"

definition weighted_count :: "token_frequency \<Rightarrow> string \<times> string \<Rightarrow> int" where
  "weighted_count counts pair =
     (\<Sum>(token, value) \<leftarrow> counts. value * int (count_list (adjacent_pairs (str_split token)) pair))"

text \<open>
  The rewrite the specification describes for a merge of the pair \<open>(a, b)\<close>: scan the
  symbols left to right and replace each occurrence of \<open>a\<close> directly followed by \<open>b\<close>
  by the one symbol \<open>ab\<close>, continuing after the replaced pair.
\<close>

fun replace_pair :: "string \<Rightarrow> string \<Rightarrow> string list \<Rightarrow> string list" where
  "replace_pair a b (c0 # c1 # rest) =
     (if c0 = a \<and> c1 = b then (a @ b) # replace_pair a b rest
      else c0 # replace_pair a b (c1 # rest))"
| "replace_pair a b characters = characters"

definition replace_pair_in_keys :: "string \<Rightarrow> string \<Rightarrow> token_frequency \<Rightarrow> token_frequency" where
  "replace_pair_in_keys a b counts =
     map (\<lambda>(token, value). (str_join '' '' (replace_pair a b (str_split token)), value)) counts"

text \<open>
  For the proofs about \<open>count_pairs\<close>: the additions \<open>pairs[p] += value\<close> the two nested
  loops perform, in order, as one list.
\<close>

definition add_count :: "'k \<times> int \<Rightarrow> ('k \<times> int) list \<Rightarrow> ('k \<times> int) list" where
  "add_count kv pairs = AList.map_default (fst kv) (0 + snd kv) (\<lambda>c. c + snd kv) pairs"

definition increments :: "token_frequency \<Rightarrow> pair_count" where
  "increments counts =
     concat (map (\<lambda>(token, value). map (\<lambda>pair. (pair, value)) (adjacent_pairs (str_split token)))
               counts)"

text \<open>
  A symbol that \<open>str_split\<close> can return: not empty and free of whitespace. And the
  invariant of the vocabulary: every symbol of every key is a member.
\<close>

definition clean :: "string \<Rightarrow> bool" where
  "clean s \<longleftrightarrow> s \<noteq> [] \<and> (\<forall>c \<in> set s. \<not> is_space c)"

definition known_symbols :: "bpe_tokenizer \<Rightarrow> bool" where
  "known_symbols self \<longleftrightarrow>
     (\<forall>(token, value) \<in> set (token_counts self). set (str_split token) \<subseteq> set (vocab self))"

text \<open>
  Two concrete inputs: the state of a tokenizer trained on the one-word corpus \<open>a\<close>
  after its only possible merge, and a corpus whose two words are spelt with the
  characters of the end-of-word marker.
\<close>

definition exhausted :: bpe_tokenizer where
  "exhausted = \<lparr>corpus = [''a''], n_merges = 10, n_merges_done = 1,
     token_counts = [(''a</W>'', 1)], vocab = [''a'', ''</W>'', ''a</W>'']\<rparr>"

definition marker_text :: "string list" where
  "marker_text = [''</W'', ''</W>'']"

section \<open>The filled table\<close>

lemma and_then_Inr [simp]: "and_then (Inr x) f = f x"
  by (simp add: and_then_def)

lemma and_then_Inl [simp]: "and_then (Inl e) f = Inl e"
  by (simp add: and_then_def)

lemma for_each_append:
  "for_each body (xs @ ys) s = and_then (for_each body xs s) (for_each body ys)"
  by (induction xs arbitrary: s) (auto simp: and_then_def split: sum.splits)

lemma for_each_upt_rule:
  assumes init: "P a s"
    and step: "\<And>i s. a \<le> i \<Longrightarrow> i < b \<Longrightarrow> P i s \<Longrightarrow> \<exists>s'. body i s = Inr s' \<and> P (Suc i) s'"
    and le: "a \<le> b"
  shows "\<exists>s'. for_each body [a..<b] s = Inr s' \<and> P b s'"
  using le
proof (induction b rule: dec_induct)
  case base
  then show ?case using init by simp
next
  case (step n)
  then obtain s1 where s1: "for_each body [a..<n] s = Inr s1" "P n s1" by blast
  from step.hyps s1(2) assms(2)[of n s1] obtain s2 where "body n s1 = Inr s2" "P (Suc n) s2" by blast
  with s1 step.hyps show ?case by (simp add: for_each_append)
qed

lemma for_each_map: "for_each body (map f xs) s = for_each (\<lambda>x. body (f x)) xs s"
  by (induction xs arbitrary: s) (auto simp: and_then_def split: sum.splits)

lemma for_each_product:
  "for_each body (List.product xs ys) s = for_each (\<lambda>x. for_each (\<lambda>y. body (x, y)) ys) xs s"
  by (induction xs arbitrary: s) (auto simp: for_each_append for_each_map and_then_def split: sum.splits)

lemma for_each_fails:
  assumes "P s" and "x \<in> set xs"
    and step: "\<And>y s. P s \<Longrightarrow> y \<in> set xs \<Longrightarrow> (\<exists>s'. body y s = Inr s' \<and> P s') \<or> body y s = Inl e"
    and bad: "\<And>s. P s \<Longrightarrow> body x s = Inl e"
  shows "for_each body xs s = Inl e"
  using assms
proof (induction xs arbitrary: s)
  case Nil
  then show ?case by simp
next
  case (Cons y ys)
  from Cons.prems(3) [OF Cons.prems(1), of y]
  consider s' where "body y s = Inr s'" "P s'" | "body y s = Inl e" by auto
  then show ?case
  proof cases
    case 1
    show ?thesis
    proof (cases "x = y")
      case True
      with Cons.prems(4) [OF Cons.prems(1)] 1 show ?thesis by simp
    next
      case False
      with Cons.prems(2) have "x \<in> set ys" by simp
      have "for_each body ys s' = Inl e"
      proof (rule Cons.IH [OF 1(2) \<open>x \<in> set ys\<close>])
        show "(\<exists>s'. body z s = Inr s' \<and> P s') \<or> body z s = Inl e" if "P s" "z \<in> set ys" for z s
          using Cons.prems(3) [OF that(1), of z] that(2) by simp
        show "body x s = Inl e" if "P s" for s
          using Cons.prems(4) [OF that] .
      qed
      with 1 show ?thesis by simp
    qed
  next
    case 2
    then show ?thesis by simp
  qed
qed

lemma shape_zeros: "shape (zeros n m) n m"
  by (simp add: shape_def zeros_def)

lemma zeros_nth: "i < n \<Longrightarrow> j < m \<Longrightarrow> zeros n m ! i ! j = 0"
  by (simp add: zeros_def)

lemma get_item_shape: "shape t n m \<Longrightarrow> i < n \<Longrightarrow> j < m \<Longrightarrow> get_item t i j = Inr (t ! i ! j)"
  by (simp add: get_item_def shape_def)

lemma set_item_shape:
  assumes "shape t n m" "r < n" "c < m"
  shows "\<exists>t'. set_item t r c v = Inr t' \<and> shape t' n m \<and>
           (\<forall>i<n. \<forall>j<m. t' ! i ! j = (if i = r \<and> j = c then v else t ! i ! j))"
proof -
  let ?t' = "t[r := (t ! r)[c := v]]"
  from assms have len: "length t = n" "length (t ! r) = m"
    by (simp_all add: shape_def)
  have "set_item t r c v = Inr ?t'"
    using assms len by (simp add: set_item_def)
  moreover have "shape ?t' n m"
    using assms len unfolding shape_def by (auto dest!: set_update_subset_insert [THEN subsetD])
  moreover have "\<forall>i<n. \<forall>j<m. ?t' ! i ! j = (if i = r \<and> j = c then v else t ! i ! j)"
    using len assms(2,3) by (auto simp: nth_list_update)
  ultimately show ?thesis by blast
qed

lemma add_cost_converts: "can_convert A c \<Longrightarrow> add_cost A v c = Inr (plus_cost A v c)"
  by (simp add: add_cost_def)

lemma add_cost_overflow: "\<not> can_convert A c \<Longrightarrow> add_cost A v c = Inl OverflowError"
  by (simp add: add_cost_def)

lemma prefix_value_0_0: "prefix_value A ic dc sc s t 0 0 = 0"
  by (simp add: prefix_value_def)

lemma prefix_value_Suc_0:
  "i < length s \<Longrightarrow>
   prefix_value A ic dc sc s t (Suc i) 0 = plus_cost A (prefix_value A ic dc sc s t i 0) dc"
  by (simp add: prefix_value_def take_Suc_conv_app_nth)

lemma prefix_value_0_Suc:
  "j < length t \<Longrightarrow>
   prefix_value A ic dc sc s t 0 (Suc j) = plus_cost A (prefix_value A ic dc sc s t 0 j) ic"
  by (simp add: prefix_value_def take_Suc_conv_app_nth)

lemma prefix_value_Suc_Suc:
  "i < length s \<Longrightarrow> j < length t \<Longrightarrow>
   prefix_value A ic dc sc s t (Suc i) (Suc j) =
     min (plus_cost A (prefix_value A ic dc sc s t i (Suc j)) dc)
       (min (plus_cost A (prefix_value A ic dc sc s t i j) (substitution_logic (s ! i) (t ! j) sc))
            (plus_cost A (prefix_value A ic dc sc s t (Suc i) j) ic))"
  by (simp add: prefix_value_def take_Suc_conv_app_nth)

lemma first_column_loop:
  assumes "shape t0 n m" "0 < n" "0 < m" "t0 ! 0 ! 0 = D 0 0"
    and conv: "n = 1 \<or> can_convert A dc"
    and D: "\<And>i. Suc i < n \<Longrightarrow> D (Suc i) 0 = plus_cost A (D i 0) dc"
  shows "\<exists>t. for_each (first_column_step A dc) [1..<n] t0 = Inr t \<and> filled D (\<lambda>i j. j = 0) n m t"
proof -
  define P where "P = (\<lambda>r. filled D (\<lambda>i j. j = 0 \<and> i < r) n m)"
  have init: "P 1 t0" using assms by (auto simp: filled_def P_def)
  have step: "\<exists>t'. first_column_step A dc r t = Inr t' \<and> P (Suc r) t'"
    if r: "1 \<le> r" "r < n" and P: "P r t" for r t
  proof -
    from P have sh: "shape t n m" by (simp add: filled_def P_def)
    from r obtain i where i: "r = Suc i" by (cases r) auto
    from r conv have cv: "can_convert A dc" by auto
    have g: "get_item t (r - 1) 0 = Inr (D i 0)"
      using P r i assms(3) by (simp add: get_item_shape [OF sh] filled_def P_def)
    from set_item_shape [OF sh r(2) assms(3), of "plus_cost A (D i 0) dc"]
    obtain t' where t': "set_item t r 0 (plus_cost A (D i 0) dc) = Inr t'" "shape t' n m"
      "\<forall>a<n. \<forall>b<m. t' ! a ! b = (if a = r \<and> b = 0 then plus_cost A (D i 0) dc else t ! a ! b)"
      by blast
    have "t' ! a ! b = D a b" if ab: "a < n" "b < m" "b = 0 \<and> a < Suc r" for a b
    proof (cases "a = r")
      case True
      then show ?thesis using t'(3) ab D[of i] i r by simp
    next
      case False
      then have "a < r" using ab by simp
      then show ?thesis using t'(3) ab P False by (simp add: filled_def P_def)
    qed
    then have "P (Suc r) t'"
      using t'(2) by (simp add: filled_def P_def)
    then show ?thesis
      using g t'(1) by (simp add: first_column_step_def add_cost_converts [OF cv])
  qed
  from for_each_upt_rule [where P = P and a = 1 and s = t0 and b = n and body = "first_column_step A dc", OF init step] assms(2)
  obtain t where "for_each (first_column_step A dc) [1..<n] t0 = Inr t" "P n t"
    by auto
  then show ?thesis by (auto simp: filled_def P_def)
qed

lemma first_row_loop:
  assumes t0: "filled D (\<lambda>i j. j = 0) n m t0" and "0 < n" "0 < m"
    and conv: "m = 1 \<or> can_convert A ic"
    and D: "\<And>j. Suc j < m \<Longrightarrow> D 0 (Suc j) = plus_cost A (D 0 j) ic"
  shows "\<exists>t. for_each (first_row_step A ic) [1..<m] t0 = Inr t \<and> filled D (\<lambda>i j. i = 0 \<or> j = 0) n m t"
proof -
  define P where "P = (\<lambda>c. filled D (\<lambda>i j. j = 0 \<or> (i = 0 \<and> j < c)) n m)"
  have init: "P 1 t0" using assms by (auto simp: filled_def P_def)
  have step: "\<exists>t'. first_row_step A ic c t = Inr t' \<and> P (Suc c) t'"
    if c: "1 \<le> c" "c < m" and P: "P c t" for c t
  proof -
    from P have sh: "shape t n m" by (simp add: filled_def P_def)
    from c obtain j where j: "c = Suc j" by (cases c) auto
    from c conv have cv: "can_convert A ic" by auto
    have g: "get_item t 0 (c - 1) = Inr (D 0 j)"
      using P c j assms(2) by (simp add: get_item_shape [OF sh] filled_def P_def)
    from set_item_shape [OF sh assms(2) c(2), of "plus_cost A (D 0 j) ic"]
    obtain t' where t': "set_item t 0 c (plus_cost A (D 0 j) ic) = Inr t'" "shape t' n m"
      "\<forall>a<n. \<forall>b<m. t' ! a ! b = (if a = 0 \<and> b = c then plus_cost A (D 0 j) ic else t ! a ! b)"
      by blast
    have "t' ! a ! b = D a b" if ab: "a < n" "b < m" "b = 0 \<or> (a = 0 \<and> b < Suc c)" for a b
    proof (cases "a = 0 \<and> b = c")
      case True
      then show ?thesis using t'(3) ab D[of j] j c by simp
    next
      case False
      then have "b = 0 \<or> (a = 0 \<and> b < c)" using ab by auto
      moreover have "t' ! a ! b = t ! a ! b" using t'(3) ab False by auto
      ultimately show ?thesis using ab P by (auto simp: filled_def P_def)
    qed
    then have "P (Suc c) t'"
      using t'(2) by (simp add: filled_def P_def)
    then show ?thesis
      using g t'(1) by (simp add: first_row_step_def add_cost_converts [OF cv])
  qed
  from for_each_upt_rule [where P = P and a = 1 and s = t0 and b = m and body = "first_row_step A ic", OF init step] assms(3)
  obtain t where "for_each (first_row_step A ic) [1..<m] t0 = Inr t" "P m t"
    by auto
  then show ?thesis by (auto simp: filled_def P_def)
qed

lemma cell_step_fills:
  assumes Q: "filled D (\<lambda>i j. i = 0 \<or> j = 0 \<or> i < r \<or> (i = r \<and> j < c)) n m t"
    and r: "1 \<le> r" "r < n" and c: "1 \<le> c" "c < m"
    and len: "length source = n" "length target = m"
    and conv: "can_convert A dc" "can_convert A ic"
      "can_convert A (substitution_logic (source ! r) (target ! c) sc)"
    and D: "\<And>i j. Suc i < n \<Longrightarrow> Suc j < m \<Longrightarrow>
              D (Suc i) (Suc j) =
                min (plus_cost A (D i (Suc j)) dc)
                  (min (plus_cost A (D i j) (substitution_logic (source ! Suc i) (target ! Suc j) sc))
                       (plus_cost A (D (Suc i) j) ic))"
  shows "\<exists>t'. cell_step A source target ic dc sc (r, c) t = Inr t' \<and>
           filled D (\<lambda>i j. i = 0 \<or> j = 0 \<or> i < r \<or> (i = r \<and> j < Suc c)) n m t'"
proof -
  from Q have sh: "shape t n m" by (simp add: filled_def)
  from r obtain i where i: "r = Suc i" by (cases r) auto
  from c obtain j where j: "c = Suc j" by (cases c) auto
  have known: "t ! a ! b = D a b" if "a < n" "b < m" "a = 0 \<or> b = 0 \<or> a < r \<or> (a = r \<and> b < c)" for a b
    using Q that unfolding filled_def by blast
  have g1: "get_item t (r - 1) c = Inr (D i c)"
    using r c i known [of i c] by (simp add: get_item_shape [OF sh])
  have g2: "get_item t (r - 1) (c - 1) = Inr (D i j)"
    using r c i j known [of i j] by (simp add: get_item_shape [OF sh])
  have g3: "get_item t r (c - 1) = Inr (D r j)"
    using r c i j known [of r j] by (simp add: get_item_shape [OF sh])
  have ch: "char_at source r = Inr (source ! r)" "char_at target c = Inr (target ! c)"
    using r c len by (simp_all add: char_at_def)
  let ?v = "min (plus_cost A (D i c) dc)
      (min (plus_cost A (D i j) (substitution_logic (source ! r) (target ! c) sc))
           (plus_cost A (D r j) ic))"
  have v: "?v = D r c"
    using D [of i j] i j r c by simp
  from set_item_shape [OF sh r(2) c(2), of ?v]
  obtain t' where t': "set_item t r c ?v = Inr t'" "shape t' n m"
    "\<forall>a<n. \<forall>b<m. t' ! a ! b = (if a = r \<and> b = c then ?v else t ! a ! b)"
    by blast
  have "t' ! a ! b = D a b"
    if ab: "a < n" "b < m" "a = 0 \<or> b = 0 \<or> a < r \<or> (a = r \<and> b < Suc c)" for a b
  proof (cases "a = r \<and> b = c")
    case True
    then show ?thesis using t'(3) ab v by simp
  next
    case False
    then have "a = 0 \<or> b = 0 \<or> a < r \<or> (a = r \<and> b < c)" using ab by auto
    moreover have "t' ! a ! b = t ! a ! b" using t'(3) ab False by auto
    ultimately show ?thesis using known ab by simp
  qed
  then have "filled D (\<lambda>i j. i = 0 \<or> j = 0 \<or> i < r \<or> (i = r \<and> j < Suc c)) n m t'"
    using t'(2) by (simp add: filled_def)
  then show ?thesis
    using g1 g2 g3 ch t'(1) by (simp add: cell_step_def add_cost_converts conv)
qed

lemma cell_loop:
  assumes t0: "filled D (\<lambda>i j. i = 0 \<or> j = 0) n m t0" and pos: "0 < n" "0 < m"
    and len: "length source = n" "length target = m"
    and conv: "n = 1 \<or> m = 1 \<or> (can_convert A dc \<and> can_convert A ic)"
      "\<And>r c. 1 \<le> r \<Longrightarrow> r < n \<Longrightarrow> 1 \<le> c \<Longrightarrow> c < m \<Longrightarrow>
         can_convert A (substitution_logic (source ! r) (target ! c) sc)"
    and D: "\<And>i j. Suc i < n \<Longrightarrow> Suc j < m \<Longrightarrow>
              D (Suc i) (Suc j) =
                min (plus_cost A (D i (Suc j)) dc)
                  (min (plus_cost A (D i j) (substitution_logic (source ! Suc i) (target ! Suc j) sc))
                       (plus_cost A (D (Suc i) j) ic))"
  shows "\<exists>t. for_each (cell_step A source target ic dc sc) (List.product [1..<n] [1..<m]) t0 = Inr t \<and>
           filled D (\<lambda>i j. True) n m t"
proof -
  define Q where "Q = (\<lambda>r c. filled D (\<lambda>i j. i = 0 \<or> j = 0 \<or> i < r \<or> (i = r \<and> j < c)) n m)"
  define P where "P = (\<lambda>r. filled D (\<lambda>i j. i = 0 \<or> j = 0 \<or> i < r) n m)"
  define row_loop where "row_loop = (\<lambda>r. for_each (\<lambda>c. cell_step A source target ic dc sc (r, c)) [1..<m])"
  have row: "\<exists>t'. row_loop r t = Inr t' \<and> P (Suc r) t'"
    if r: "1 \<le> r" "r < n" and P: "P r t" for r t
  proof -
    have init: "Q r 1 t"
      using P unfolding P_def Q_def filled_def by auto
    have step: "\<exists>t'. cell_step A source target ic dc sc (r, c) t = Inr t' \<and> Q r (Suc c) t'"
      if c: "1 \<le> c" "c < m" "Q r c t" for c t
    proof -
      from r c conv(1) have cv: "can_convert A dc" "can_convert A ic" by auto
      from cell_step_fills [OF c(3) [unfolded Q_def] r c(1,2) len cv conv(2) [OF r c(1,2)] D]
      show ?thesis by (simp add: Q_def)
    qed
    from for_each_upt_rule [where P = "Q r" and a = 1 and s = t and b = m
        and body = "\<lambda>c. cell_step A source target ic dc sc (r, c)", OF init step] pos
    obtain t' where "row_loop r t = Inr t'" "Q r m t'"
      by (auto simp: row_loop_def)
    moreover from this(2) have "P (Suc r) t'"
      unfolding P_def Q_def filled_def by (auto simp: less_Suc_eq)
    ultimately show ?thesis by blast
  qed
  have init: "P 1 t0"
    using t0 unfolding P_def filled_def by auto
  from for_each_upt_rule [where P = P and a = 1 and s = t0 and b = n and body = row_loop, OF init row] pos
  obtain t where "for_each row_loop [1..<n] t0 = Inr t" "P n t"
    by auto
  then show ?thesis
    unfolding P_def filled_def by (auto simp: for_each_product row_loop_def)
qed

lemma fill_table_prefix_value:
  assumes "costs_convert A s u ic dc sc"
  shows "\<exists>t. fill_table A s u ic dc sc = Inr t \<and>
       filled (prefix_value A ic dc sc s u) (\<lambda>i j. True) (Suc (length s)) (Suc (length u)) t"
proof -
  let ?n = "Suc (length s)" and ?m = "Suc (length u)"
  let ?D = "prefix_value A ic dc sc s u"
  from assms have cd: "?n = 1 \<or> can_convert A dc" and ci: "?m = 1 \<or> can_convert A ic"
    and cs: "\<And>x y. x \<in> set s \<Longrightarrow> y \<in> set u \<Longrightarrow> can_convert A (substitution_logic x y sc)"
    by (auto simp: costs_convert_def)
  from first_column_loop [of "zeros ?n ?m" ?n ?m ?D A dc, OF _ _ _ _ cd]
  obtain t1 where t1: "for_each (first_column_step A dc) [1..<?n] (zeros ?n ?m) = Inr t1"
    "filled ?D (\<lambda>i j. j = 0) ?n ?m t1"
    by (auto simp: shape_zeros zeros_nth prefix_value_0_0 prefix_value_Suc_0)
  from first_row_loop [OF t1(2) _ _ ci]
  obtain t2 where t2: "for_each (first_row_step A ic) [1..<?m] t1 = Inr t2"
    "filled ?D (\<lambda>i j. i = 0 \<or> j = 0) ?n ?m t2"
    by (auto simp: prefix_value_0_Suc)
  have c3: "?n = 1 \<or> ?m = 1 \<or> (can_convert A dc \<and> can_convert A ic)"
    using cd ci by auto
  have c4: "can_convert A (substitution_logic ((CHR ''#'' # s) ! r) ((CHR ''#'' # u) ! c) sc)"
    if "1 \<le> r" "r < ?n" "1 \<le> c" "c < ?m" for r c
  proof -
    from that obtain i j where "r = Suc i" "c = Suc j" "i < length s" "j < length u"
      by (cases r; cases c) auto
    then show ?thesis using cs [of "s ! i" "u ! j"] by simp
  qed
  from cell_loop [where dc = dc and ic = ic, OF t2(2) _ _ _ _ c3 c4]
  obtain t3 where "for_each (cell_step A (CHR ''#'' # s) (CHR ''#'' # u) ic dc sc)
      (List.product [1..<?n] [1..<?m]) t2 = Inr t3" "filled ?D (\<lambda>i j. True) ?n ?m t3"
    by (auto simp: prefix_value_Suc_Suc)
  with t1 t2 show ?thesis
    by (simp add: fill_table_def)
qed

lemma fill_table_cells:
  assumes "costs_convert A s u ic dc sc"
  obtains t where "fill_table A s u ic dc sc = Inr t"
    and "length t = Suc (length s)" and "\<And>row. row \<in> set t \<Longrightarrow> length row = Suc (length u)"
    and "\<And>i j. i \<le> length s \<Longrightarrow> j \<le> length u \<Longrightarrow> t ! i ! j = prefix_value A ic dc sc s u i j"
proof -
  from fill_table_prefix_value [OF assms]
  obtain t where "fill_table A s u ic dc sc = Inr t"
    "filled (prefix_value A ic dc sc s u) (\<lambda>i j. True) (Suc (length s)) (Suc (length u)) t"
    by blast
  then show ?thesis
    by (intro that [of t]) (auto simp: filled_def shape_def)
qed

lemma cell_step_outcome:
  assumes sh: "shape t n m"
    and r: "1 \<le> r" "r < n" and c: "1 \<le> c" "c < m"
    and len: "length source = n" "length target = m"
    and conv: "can_convert A dc" "can_convert A ic"
  shows "cell_step A source target ic dc sc (r, c) t =
     (if can_convert A (substitution_logic (source ! r) (target ! c) sc)
      then cell_step A source target ic dc sc (r, c) t else Inl OverflowError)"
    and "can_convert A (substitution_logic (source ! r) (target ! c) sc) \<Longrightarrow>
         \<exists>t'. cell_step A source target ic dc sc (r, c) t = Inr t' \<and> shape t' n m"
proof -
  have g: "get_item t (r - 1) c = Inr (t ! (r - 1) ! c)"
    "get_item t (r - 1) (c - 1) = Inr (t ! (r - 1) ! (c - 1))"
    "get_item t r (c - 1) = Inr (t ! r ! (c - 1))"
    using r c by (simp_all add: get_item_shape [OF sh])
  have ch: "char_at source r = Inr (source ! r)" "char_at target c = Inr (target ! c)"
    using r c len by (simp_all add: char_at_def)
  show "cell_step A source target ic dc sc (r, c) t =
     (if can_convert A (substitution_logic (source ! r) (target ! c) sc)
      then cell_step A source target ic dc sc (r, c) t else Inl OverflowError)"
    using g ch by (simp add: cell_step_def add_cost_converts conv add_cost_overflow)
  assume cs: "can_convert A (substitution_logic (source ! r) (target ! c) sc)"
  let ?v = "min (plus_cost A (t ! (r - 1) ! c) dc)
      (min (plus_cost A (t ! (r - 1) ! (c - 1)) (substitution_logic (source ! r) (target ! c) sc))
           (plus_cost A (t ! r ! (c - 1)) ic))"
  from set_item_shape [OF sh r(2) c(2), of ?v]
  obtain t' where "set_item t r c ?v = Inr t'" "shape t' n m" by blast
  then show "\<exists>t'. cell_step A source target ic dc sc (r, c) t = Inr t' \<and> shape t' n m"
    using g ch by (simp add: cell_step_def add_cost_converts conv cs)
qed

lemma filled_shape: "filled D done n m t \<Longrightarrow> shape t n m"
  by (simp add: filled_def)

lemma fill_table_overflow:
  assumes "\<not> costs_convert A s u ic dc sc"
  shows "fill_table A s u ic dc sc = Inl OverflowError"
proof -
  let ?n = "Suc (length s)" and ?m = "Suc (length u)"
  let ?D = "prefix_value A ic dc sc s u"
  let ?src = "CHR ''#'' # s" and ?tgt = "CHR ''#'' # u"
  have z: "shape (zeros ?n ?m :: 'b table) ?n ?m" by (rule shape_zeros)
  show ?thesis
  proof (cases "s \<noteq> [] \<and> \<not> can_convert A dc")
    case True
    then have "1 < ?n" by (cases s) simp_all
    then have "[1..<?n] = 1 # [Suc 1..<?n]"
      by (rule upt_conv_Cons)
    moreover have "first_column_step A dc 1 (zeros ?n ?m :: 'b table) = Inl OverflowError"
      using True by (simp add: first_column_step_def get_item_shape [OF z] add_cost_overflow)
    ultimately have "for_each (first_column_step A dc) [1..<?n] (zeros ?n ?m :: 'b table) = Inl OverflowError"
      by simp
    then show ?thesis by (simp add: fill_table_def)
  next
    case False
    then have cd: "?n = 1 \<or> can_convert A dc" by auto
    from first_column_loop [of "zeros ?n ?m" ?n ?m ?D A dc, OF _ _ _ _ cd]
    obtain t1 where t1: "for_each (first_column_step A dc) [1..<?n] (zeros ?n ?m) = Inr t1"
      "filled ?D (\<lambda>i j. j = 0) ?n ?m t1"
      by (auto simp: shape_zeros zeros_nth prefix_value_0_0 prefix_value_Suc_0)
    show ?thesis
    proof (cases "u \<noteq> [] \<and> \<not> can_convert A ic")
      case True
      then have "1 < ?m" by (cases u) simp_all
      then have "[1..<?m] = 1 # [Suc 1..<?m]"
        by (rule upt_conv_Cons)
      moreover have "first_row_step A ic 1 t1 = Inl OverflowError"
        using True by (simp add: first_row_step_def get_item_shape [OF filled_shape [OF t1(2)]] add_cost_overflow)
      ultimately have "for_each (first_row_step A ic) [1..<?m] t1 = Inl OverflowError"
        by simp
      with t1(1) show ?thesis by (simp add: fill_table_def)
    next
      case F2: False
      then have ci: "?m = 1 \<or> can_convert A ic" by auto
      from first_row_loop [OF t1(2) _ _ ci]
      obtain t2 where t2: "for_each (first_row_step A ic) [1..<?m] t1 = Inr t2"
        "filled ?D (\<lambda>i j. i = 0 \<or> j = 0) ?n ?m t2"
        by (auto simp: prefix_value_0_Suc)
      from assms False F2 obtain x y where xy: "x \<in> set s" "y \<in> set u"
        "\<not> can_convert A (substitution_logic x y sc)"
        by (auto simp: costs_convert_def)
      then obtain i j where ij: "i < length s" "s ! i = x" "j < length u" "u ! j = y"
        by (auto simp: in_set_conv_nth)
      from xy False F2 have cv: "can_convert A dc" "can_convert A ic" by auto
      have "for_each (cell_step A ?src ?tgt ic dc sc) (List.product [1..<?n] [1..<?m]) t2 =
          Inl OverflowError"
      proof (rule for_each_fails [where P = "\<lambda>t. shape t ?n ?m" and x = "(Suc i, Suc j)"])
        show "shape t2 ?n ?m" by (rule filled_shape [OF t2(2)])
        show "(Suc i, Suc j) \<in> set (List.product [1..<?n] [1..<?m])"
          using ij by auto
        show "(\<exists>t'. cell_step A ?src ?tgt ic dc sc rc t = Inr t' \<and> shape t' ?n ?m) \<or>
            cell_step A ?src ?tgt ic dc sc rc t = Inl OverflowError"
          if "shape t ?n ?m" "rc \<in> set (List.product [1..<?n] [1..<?m])" for rc t
        proof -
          obtain r c where rc: "rc = (r, c)" by (cases rc)
          with that(2) have b: "1 \<le> r" "r < ?n" "1 \<le> c" "c < ?m" by auto
          from cell_step_outcome [OF that(1) b _ _ cv, of ?src ?tgt sc]
          show ?thesis unfolding rc by (metis length_Cons)
        qed
        show "cell_step A ?src ?tgt ic dc sc (Suc i, Suc j) t = Inl OverflowError"
          if "shape t ?n ?m" for t
        proof -
          have b: "1 \<le> Suc i" "Suc i < ?n" "1 \<le> Suc j" "Suc j < ?m" using ij by simp_all
          have "\<not> can_convert A (substitution_logic (?src ! Suc i) (?tgt ! Suc j) sc)"
            using xy(3) ij by simp
          with cell_step_outcome(1) [OF that b _ _ cv, of ?src ?tgt sc]
          show ?thesis by (metis length_Cons)
        qed
      qed
      with t1(1) t2(1) show ?thesis by (simp add: fill_table_def)
    qed
  qed
qed

section \<open>The recurrence is a weighted edit distance\<close>

lemma substitution_logic_nonneg: "0 \<le> sc \<Longrightarrow> 0 \<le> substitution_logic x y (sc :: int)"
  by (simp add: substitution_logic_def)

lemma substitution_logic_le: "0 \<le> sc \<Longrightarrow> substitution_logic x y sc \<le> (sc :: int)"
  by (simp add: substitution_logic_def)

lemma substitution_logic_same: "substitution_logic x x sc = 0"
  by (simp add: substitution_logic_def)

lemma substitution_logic_triangle:
  "0 \<le> sc \<Longrightarrow>
   substitution_logic x z sc \<le> substitution_logic x y sc + substitution_logic y z (sc :: int)"
  by (auto simp: substitution_logic_def)

lemma lev_nonneg:
  assumes "0 \<le> ic" "0 \<le> dc" "0 \<le> sc"
  shows "0 \<le> lev ic dc sc xs ys"
  using assms by (induction ic dc sc xs ys rule: lev.induct) (auto simp: substitution_logic_def)

lemma lev_delete_le: "lev ic dc sc (x # xs) ys \<le> lev ic dc sc xs ys + dc"
  by (cases ys) simp_all

lemma lev_insert_le: "lev ic dc sc xs (y # ys) \<le> lev ic dc sc xs ys + ic"
  by (cases xs) simp_all

lemma lev_substitute_le:
  "lev ic dc sc (x # xs) (y # ys) \<le> lev ic dc sc xs ys + substitution_logic x y sc"
  by simp

lemma lev_same:
  assumes "0 \<le> ic" "0 \<le> dc" "0 \<le> sc"
  shows "lev ic dc sc xs xs = 0"
proof -
  have "lev ic dc sc xs xs \<le> 0"
  proof (induction xs)
    case Nil
    then show ?case by simp
  next
    case (Cons x xs)
    have "lev ic dc sc (x # xs) (x # xs) \<le> lev ic dc sc xs xs + substitution_logic x x sc"
      by (rule lev_substitute_le)
    with Cons show ?case by (simp add: substitution_logic_same)
  qed
  with lev_nonneg [OF assms, of xs xs] show ?thesis by simp
qed

lemma lev_triangle:
  fixes a b c :: "'a list"
  assumes nn: "0 \<le> ic" "0 \<le> dc" "0 \<le> sc"
  shows "lev ic dc sc a c \<le> lev ic dc sc a b + lev ic dc sc b c"
proof (induction "length a + length b + length c" arbitrary: a b c rule: less_induct)
  case less
  let ?d = "lev ic dc sc"
  have IH: "?d a' c' \<le> ?d a' b' + ?d b' c'"
    if "length a' + length b' + length c' < length a + length b + length c" for a' b' c' :: "'a list"
    using less that by blast
  note pos = lev_nonneg [OF nn]
  show ?case
  proof (cases a)
    case aN: Nil
    show ?thesis
    proof (cases b)
      case Nil
      with aN show ?thesis by simp
    next
      case bC: (Cons y ys)
      show ?thesis
      proof (cases c)
        case Nil
        with aN bC show ?thesis using pos [of "[]" ys] pos [of ys "[]"] nn by simp
      next
        case cC: (Cons z zs)
        have 1: "?d [] c \<le> ?d [] ys + ?d ys c" using IH [of "[]" ys c] aN bC by simp
        have 2: "?d [] zs \<le> ?d [] ys + ?d ys zs" using IH [of "[]" ys zs] aN bC cC by simp
        have 3: "?d [] zs \<le> ?d [] b + ?d b zs" using IH [of "[]" b zs] aN cC by simp
        have 4: "?d [] c = ?d [] zs + ic" using cC by simp
        have 5: "?d [] b = ?d [] ys + ic" using bC by simp
        have 6: "?d b c = min (?d ys c + dc) (min (?d ys zs + substitution_logic y z sc) (?d b zs + ic))"
          using bC cC by simp
        show ?thesis
          unfolding aN using 1 2 3 4 5 6 nn substitution_logic_nonneg [OF nn(3), of y z] aN
          by (simp add: min_def split: if_splits)
      qed
    qed
  next
    case aC: (Cons x xs)
    have del: "?d a c \<le> ?d xs c + dc" unfolding aC by (rule lev_delete_le)
    have 1: "?d xs c \<le> ?d xs b + ?d b c" using IH [of xs b c] aC by simp
    show ?thesis
    proof (cases b)
      case Nil
      with aC del 1 show ?thesis by simp
    next
      case bC: (Cons y ys)
      have ab: "?d a b = min (?d xs b + dc) (min (?d xs ys + substitution_logic x y sc) (?d a ys + ic))"
        using aC bC by simp
      show ?thesis
      proof (cases c)
        case cN: Nil
        have 2: "?d xs [] \<le> ?d xs ys + ?d ys []" using IH [of xs ys "[]"] aC bC cN by simp
        have 3: "?d a [] \<le> ?d a ys + ?d ys []" using IH [of a ys "[]"] bC cN by simp
        have 4: "?d a [] = ?d xs [] + dc" using aC by simp
        have 5: "?d b [] = ?d ys [] + dc" using bC by simp
        show ?thesis
          unfolding cN using 1 2 3 4 5 ab nn substitution_logic_nonneg [OF nn(3), of x y] cN
          by (simp add: min_def split: if_splits)
      next
        case cC: (Cons z zs)
        have bc: "?d b c = min (?d ys c + dc) (min (?d ys zs + substitution_logic y z sc) (?d b zs + ic))"
          using bC cC by simp
        have sub: "?d a c \<le> ?d xs zs + substitution_logic x z sc"
          unfolding aC cC by (rule lev_substitute_le)
        have ins: "?d a c \<le> ?d a zs + ic" unfolding cC by (rule lev_insert_le)
        have 2: "?d xs c \<le> ?d xs ys + ?d ys c" using IH [of xs ys c] aC bC by simp
        have 3: "?d xs zs \<le> ?d xs ys + ?d ys zs" using IH [of xs ys zs] aC bC cC by simp
        have 4: "?d a zs \<le> ?d a b + ?d b zs" using IH [of a b zs] cC by simp
        have 5: "?d a c \<le> ?d a ys + ?d ys c" using IH [of a ys c] bC by simp
        have 6: "?d a zs \<le> ?d a ys + ?d ys zs" using IH [of a ys zs] bC cC by simp
        note s1 = substitution_logic_nonneg [OF nn(3), of x y]
        note s2 = substitution_logic_nonneg [OF nn(3), of y z]
        note s3 = substitution_logic_triangle [OF nn(3), of x z y]
        show ?thesis
          using del sub ins 1 2 3 4 5 6 ab bc nn s1 s2 s3
          by (simp add: min_def split: if_splits)
      qed
    qed
  qed
qed

lemma substitution_logic_sym: "substitution_logic x y sc = substitution_logic y x sc"
  by (auto simp: substitution_logic_def)

lemma lev_swap: "lev ic dc sc xs ys = lev dc ic sc ys xs"
proof (induction ic dc sc xs ys rule: lev.induct)
  case (4 ic dc sc x xs y ys)
  then show ?case
    by (simp add: substitution_logic_sym [of x y] min.commute min.left_commute)
qed simp_all

lemma lev_common_prefix:
  assumes "0 \<le> sc"
  shows "lev ic dc sc (u @ xs) (u @ ys) \<le> lev ic dc sc xs ys"
proof (induction u)
  case Nil
  then show ?case by simp
next
  case (Cons a u)
  have "lev ic dc sc (a # u @ xs) (a # u @ ys) \<le> lev ic dc sc (u @ xs) (u @ ys) + substitution_logic a a sc"
    by (rule lev_substitute_le)
  with Cons show ?case by (simp add: substitution_logic_same)
qed

lemma lev_single_edit:
  fixes xs :: "'a list"
  assumes nn: "0 \<le> ic" "0 \<le> dc" "0 \<le> sc" and ap: "apply_edit e xs = Some ys"
  shows "lev ic dc sc (rev xs) (rev ys) \<le> edit_cost ic dc sc e"
proof (cases e)
  case (Insert i c)
  with ap have i: "i \<le> length xs" and ys: "ys = take i xs @ c # drop i xs"
    by (auto split: if_splits)
  have "rev xs = rev (drop i xs) @ rev (take i xs)"
    by (metis append_take_drop_id rev_append)
  moreover have "rev ys = rev (drop i xs) @ c # rev (take i xs)"
    by (simp add: ys)
  ultimately have "lev ic dc sc (rev xs) (rev ys) \<le> lev ic dc sc (rev (take i xs)) (c # rev (take i xs))"
    using lev_common_prefix [OF nn(3)] by metis
  also have "\<dots> \<le> lev ic dc sc (rev (take i xs)) (rev (take i xs)) + ic"
    by (rule lev_insert_le)
  finally show ?thesis using Insert by (simp add: lev_same [OF nn])
next
  case (Delete i)
  with ap have i: "i < length xs" and ys: "ys = take i xs @ drop (Suc i) xs"
    by (auto split: if_splits)
  have "xs = take i xs @ xs ! i # drop (Suc i) xs"
    using i by (simp add: id_take_nth_drop)
  then have "rev xs = rev (drop (Suc i) xs) @ xs ! i # rev (take i xs)"
    by (metis append.assoc append_Cons append_Nil rev.simps(2) rev_append)
  moreover have "rev ys = rev (drop (Suc i) xs) @ rev (take i xs)"
    by (simp add: ys)
  ultimately have "lev ic dc sc (rev xs) (rev ys) \<le> lev ic dc sc (xs ! i # rev (take i xs)) (rev (take i xs))"
    using lev_common_prefix [OF nn(3)] by metis
  also have "\<dots> \<le> lev ic dc sc (rev (take i xs)) (rev (take i xs)) + dc"
    by (rule lev_delete_le)
  finally show ?thesis using Delete by (simp add: lev_same [OF nn])
next
  case (Substitute i c)
  with ap have i: "i < length xs" and ys: "ys = xs[i := c]"
    by (auto split: if_splits)
  have "xs = take i xs @ xs ! i # drop (Suc i) xs"
    using i by (simp add: id_take_nth_drop)
  then have "rev xs = rev (drop (Suc i) xs) @ xs ! i # rev (take i xs)"
    by (metis append.assoc append_Cons append_Nil rev.simps(2) rev_append)
  moreover have "rev ys = rev (drop (Suc i) xs) @ c # rev (take i xs)"
    using i by (simp add: ys upd_conv_take_nth_drop)
  ultimately have "lev ic dc sc (rev xs) (rev ys) \<le> lev ic dc sc (xs ! i # rev (take i xs)) (c # rev (take i xs))"
    using lev_common_prefix [OF nn(3)] by metis
  also have "\<dots> \<le> lev ic dc sc (rev (take i xs)) (rev (take i xs)) + substitution_logic (xs ! i) c sc"
    by (rule lev_substitute_le)
  finally show ?thesis
    using Substitute substitution_logic_le [OF nn(3), of "xs ! i" c] by (simp add: lev_same [OF nn])
qed

lemma lev_lower_bound:
  fixes xs :: "'a list"
  assumes nn: "0 \<le> ic" "0 \<le> dc" "0 \<le> sc"
  shows "apply_edits es xs = Some ys \<Longrightarrow> lev ic dc sc (rev xs) (rev ys) \<le> script_cost ic dc sc es"
proof (induction es arbitrary: xs)
  case Nil
  then show ?case by (simp add: script_cost_def lev_same [OF nn])
next
  case (Cons e es)
  then obtain zs where zs: "apply_edit e xs = Some zs" "apply_edits es zs = Some ys"
    by (auto split: option.splits)
  have "lev ic dc sc (rev xs) (rev ys) \<le> lev ic dc sc (rev xs) (rev zs) + lev ic dc sc (rev zs) (rev ys)"
    by (rule lev_triangle [OF nn])
  also have "\<dots> \<le> edit_cost ic dc sc e + script_cost ic dc sc es"
    using lev_single_edit [OF nn zs(1)] Cons.IH [OF zs(2)] by simp
  finally show ?case by (simp add: script_cost_def)
qed

lemma apply_edits_append:
  "apply_edits (es1 @ es2) xs =
     (case apply_edits es1 xs of None \<Rightarrow> None | Some ys \<Rightarrow> apply_edits es2 ys)"
  by (induction es1 arbitrary: xs) (auto split: option.splits)

lemma script_cost_append:
  "script_cost ic dc sc (es1 @ es2) = script_cost ic dc sc es1 + script_cost ic dc sc es2"
  by (simp add: script_cost_def)

lemma apply_edit_suffix: "apply_edit e xs = Some ys \<Longrightarrow> apply_edit e (xs @ s) = Some (ys @ s)"
  by (cases e) (auto split: if_splits simp: list_update_append)

lemma apply_edits_suffix: "apply_edits es xs = Some ys \<Longrightarrow> apply_edits es (xs @ s) = Some (ys @ s)"
  by (induction es arbitrary: xs) (auto split: option.splits simp: apply_edit_suffix)

lemma lev_attained:
  "\<exists>es. apply_edits es (rev a) = Some (rev b) \<and> script_cost ic dc sc es = lev ic dc sc a b"
proof (induction ic dc sc a b rule: lev.induct)
  case (1 ic dc sc)
  show ?case by (rule exI [of _ "[]"]) (simp add: script_cost_def)
next
  case (2 ic dc sc x xs)
  then obtain es where es: "apply_edits es (rev xs) = Some (rev [])"
    "script_cost ic dc sc es = lev ic dc sc xs []" by blast
  show ?case
    using es by (intro exI [of _ "Delete (length xs) # es"]) (simp add: script_cost_def)
next
  case (3 ic dc sc y ys)
  then obtain es where es: "apply_edits es (rev []) = Some (rev ys)"
    "script_cost ic dc sc es = lev ic dc sc [] ys" by blast
  show ?case
    using es by (intro exI [of _ "es @ [Insert (length ys) y]"])
      (simp add: apply_edits_append script_cost_append, simp add: script_cost_def)
next
  case (4 ic dc sc x xs y ys)
  let ?d1 = "lev ic dc sc xs (y # ys) + dc"
  let ?d2 = "lev ic dc sc xs ys + substitution_logic x y sc"
  let ?d3 = "lev ic dc sc (x # xs) ys + ic"
  from 4 obtain es1 where es1: "apply_edits es1 (rev xs) = Some (rev (y # ys))"
    "script_cost ic dc sc es1 = lev ic dc sc xs (y # ys)" by blast
  from 4 obtain es2 where es2: "apply_edits es2 (rev xs) = Some (rev ys)"
    "script_cost ic dc sc es2 = lev ic dc sc xs ys" by blast
  from 4 obtain es3 where es3: "apply_edits es3 (rev (x # xs)) = Some (rev ys)"
    "script_cost ic dc sc es3 = lev ic dc sc (x # xs) ys" by blast
  have a1: "\<exists>es. apply_edits es (rev (x # xs)) = Some (rev (y # ys)) \<and> script_cost ic dc sc es = ?d1"
    using es1 by (intro exI [of _ "Delete (length xs) # es1"]) (simp add: script_cost_def)
  have lift: "apply_edits es2 (rev (x # xs)) = Some (rev ys @ [x])"
    using apply_edits_suffix [OF es2(1), of "[x]"] by simp
  have upd: "(rev ys @ [x])[length ys := y] = rev ys @ [y]"
    by (simp add: list_update_append)
  have a2: "\<exists>es. apply_edits es (rev (x # xs)) = Some (rev (y # ys)) \<and> script_cost ic dc sc es = ?d2"
  proof (cases "x = y")
    case True
    with lift es2(2) show ?thesis
      by (intro exI [of _ es2]) (simp add: substitution_logic_def)
  next
    case False
    with lift es2(2) show ?thesis
      by (intro exI [of _ "es2 @ [Substitute (length ys) y]"])
        (simp add: apply_edits_append script_cost_append substitution_logic_def upd, simp add: script_cost_def)
  qed
  have a3: "\<exists>es. apply_edits es (rev (x # xs)) = Some (rev (y # ys)) \<and> script_cost ic dc sc es = ?d3"
    using es3 by (intro exI [of _ "es3 @ [Insert (length ys) y]"])
      (simp add: apply_edits_append script_cost_append, simp add: script_cost_def)
  have "lev ic dc sc (x # xs) (y # ys) = ?d1 \<or> lev ic dc sc (x # xs) (y # ys) = ?d2
      \<or> lev ic dc sc (x # xs) (y # ys) = ?d3"
    by (simp add: min_def)
  with a1 a2 a3 show ?case by metis
qed
section \<open>Symmetry of the recurrence, and float64 on integers without rounding\<close>

lemma table_value_swap: "table_value A ic dc sc xs ys = table_value A dc ic sc ys xs"
proof (induction A ic dc sc xs ys rule: table_value.induct)
  case (4 A ic dc sc x xs y ys)
  then show ?case
    by (simp add: substitution_logic_sym [of x y] min.commute min.left_commute)
qed simp_all

lemma costs_convert_swap: "costs_convert A s u c c sc = costs_convert A u s c c sc"
proof -
  have "(\<forall>x \<in> set s. \<forall>y \<in> set u. can_convert A (substitution_logic x y sc)) \<longleftrightarrow>
        (\<forall>x \<in> set u. \<forall>y \<in> set s. can_convert A (substitution_logic x y sc))"
    using substitution_logic_sym [of _ _ sc] by metis
  then show ?thesis
    unfolding costs_convert_def by blast
qed

lemma round53_exact: "\<bar>x\<bar> \<le> 2 ^ 53 \<Longrightarrow> round53 x = x"
  by (simp add: round53_def)

lemma float64_ints_converts: "\<bar>c\<bar> \<le> 2 ^ 53 \<Longrightarrow> can_convert float64_ints c"
  by (simp add: float64_ints_def)

lemma float64_ints_exact:
  assumes "\<bar>c\<bar> \<le> 2 ^ 53" and "\<bar>a + c\<bar> \<le> 2 ^ 53"
  shows "plus_cost float64_ints (Finite a) c = Finite (a + c)"
proof -
  have "round53 (a + round53 c) = a + c"
    using assms by (simp add: round53_exact)
  moreover have "a + c < 2 ^ 1024" "- (2 ^ 1024) < a + c"
    using assms(2) by simp_all
  ultimately show ?thesis
    by (simp add: float64_ints_def float64_sum_def Let_def)
qed

lemma min_Finite: "min (Finite a) (Finite b) = Finite (min a b)"
  by (simp add: min_def less_eq_float64_def)

lemma lev_Nil_left: "lev ic dc sc [] ys = int (length ys) * ic"
  by (induction ys) (simp_all add: algebra_simps)

lemma lev_Nil_right: "lev ic dc sc xs [] = int (length xs) * dc"
  by (induction xs) (simp_all add: algebra_simps)

lemma lev_upper:
  assumes "0 \<le> ic" "ic \<le> M" "dc \<le> M"
  shows "lev ic dc sc xs ys \<le> (int (length xs) + int (length ys)) * M"
proof (induction xs)
  case Nil
  have "int (length ys) * ic \<le> int (length ys) * M"
    using assms by (simp add: mult_left_mono)
  then show ?case by (simp add: lev_Nil_left)
next
  case (Cons x xs)
  have "lev ic dc sc (x # xs) ys \<le> lev ic dc sc xs ys + dc" by (rule lev_delete_le)
  with Cons assms show ?case by (simp add: algebra_simps)
qed

lemma table_value_exact:
  assumes nn: "0 \<le> ic" "0 \<le> dc" "0 \<le> sc"
    and M: "ic \<le> M" "dc \<le> M" "sc \<le> M"
  shows "(int (length xs) + int (length ys)) * M \<le> 2 ^ 53 \<Longrightarrow>
         table_value float64_ints ic dc sc xs ys = Finite (lev ic dc sc xs ys)"
proof (induction xs arbitrary: ys)
  case Nil
  then show ?case
  proof (induction ys)
    case Nil
    show ?case by (simp add: zero_float64_def)
  next
    case (Cons y ys)
    have M0: "0 \<le> M" using nn M by simp
    have b: "(int (length ([] :: 'a list)) + int (length ys)) * M \<le> 2 ^ 53"
      using Cons.prems M0 by (simp add: algebra_simps)
    have ih: "table_value float64_ints ic dc sc [] ys = Finite (lev ic dc sc [] ys)"
      using Cons.IH b by simp
    have lo: "0 \<le> lev ic dc sc [] ys" using nn by (rule lev_nonneg)
    have up: "lev ic dc sc [] ys \<le> (int (length ([] :: 'a list)) + int (length ys)) * M"
      using nn(1) M(1,2) by (rule lev_upper)
    have "lev ic dc sc [] ys + ic \<le> 2 ^ 53"
      using up M(1) Cons.prems by (simp add: algebra_simps)
    moreover have "ic \<le> 2 ^ 53" using calculation lo by simp
    ultimately have "plus_cost float64_ints (Finite (lev ic dc sc [] ys)) ic
        = Finite (lev ic dc sc [] ys + ic)"
      using lo nn(1) by (intro float64_ints_exact) simp_all
    then show ?case using ih by simp
  qed
next
  case (Cons x xs)
  have M0: "0 \<le> M" using nn M by simp
  show ?case using Cons.prems
  proof (induction ys)
    case Nil
    have b: "(int (length xs) + int (length ([] :: 'a list))) * M \<le> 2 ^ 53"
      using Nil M0 by (simp add: algebra_simps)
    have ih: "table_value float64_ints ic dc sc xs [] = Finite (lev ic dc sc xs [])"
      using Cons.IH [OF b] .
    have lo: "0 \<le> lev ic dc sc xs []" using nn by (rule lev_nonneg)
    have up: "lev ic dc sc xs [] \<le> (int (length xs) + int (length ([] :: 'a list))) * M"
      using nn(1) M(1,2) by (rule lev_upper)
    have "lev ic dc sc xs [] + dc \<le> 2 ^ 53"
      using up M(2) Nil by (simp add: algebra_simps)
    moreover have "dc \<le> 2 ^ 53" using calculation lo by simp
    ultimately have "plus_cost float64_ints (Finite (lev ic dc sc xs [])) dc
        = Finite (lev ic dc sc xs [] + dc)"
      using lo nn(2) by (intro float64_ints_exact) simp_all
    then show ?case using ih by simp
  next
    case (Cons y ys)
    have total: "(int (length xs) + int (length ys) + 2) * M \<le> 2 ^ 53"
      using Cons.prems by (simp add: algebra_simps)
    have b1: "(int (length xs) + int (length (y # ys))) * M \<le> 2 ^ 53"
      using total M0 by (simp add: algebra_simps)
    have b2: "(int (length xs) + int (length ys)) * M \<le> 2 ^ 53"
      using total M0 by (simp add: algebra_simps)
    have b3: "(int (length (x # xs)) + int (length ys)) * M \<le> 2 ^ 53"
      using total M0 by (simp add: algebra_simps)
    have ih1: "table_value float64_ints ic dc sc xs (y # ys) = Finite (lev ic dc sc xs (y # ys))"
      using \<open>\<And>ys. (int (length xs) + int (length ys)) * M \<le> 2 ^ 53 \<Longrightarrow>
          table_value float64_ints ic dc sc xs ys = Finite (lev ic dc sc xs ys)\<close> [OF b1] .
    have ih2: "table_value float64_ints ic dc sc xs ys = Finite (lev ic dc sc xs ys)"
      using \<open>\<And>ys. (int (length xs) + int (length ys)) * M \<le> 2 ^ 53 \<Longrightarrow>
          table_value float64_ints ic dc sc xs ys = Finite (lev ic dc sc xs ys)\<close> [OF b2] .
    have ih3: "table_value float64_ints ic dc sc (x # xs) ys = Finite (lev ic dc sc (x # xs) ys)"
      using Cons.IH b3 by simp
    have step: "plus_cost float64_ints (Finite (lev ic dc sc as bs)) c
        = Finite (lev ic dc sc as bs + c)"
      if "0 \<le> c" "c \<le> M" "(int (length as) + int (length bs) + 1) * M \<le> 2 ^ 53"
      for as bs :: "'a list" and c
    proof -
      have lo: "0 \<le> lev ic dc sc as bs" using nn by (rule lev_nonneg)
      have up: "lev ic dc sc as bs \<le> (int (length as) + int (length bs)) * M"
        using nn(1) M(1,2) by (rule lev_upper)
      have "lev ic dc sc as bs + c \<le> 2 ^ 53"
        using up that by (simp add: algebra_simps)
      moreover have "c \<le> 2 ^ 53" using calculation lo by simp
      ultimately show ?thesis
        using lo that(1) by (intro float64_ints_exact) simp_all
    qed
    have s0: "0 \<le> substitution_logic x y sc" using nn(3) by (rule substitution_logic_nonneg)
    have sM: "substitution_logic x y sc \<le> M"
      using substitution_logic_le [OF nn(3), of x y] M(3) by simp
    have e1: "plus_cost float64_ints (Finite (lev ic dc sc xs (y # ys))) dc
        = Finite (lev ic dc sc xs (y # ys) + dc)"
      using nn(2) M(2) total by (intro step) (simp_all add: algebra_simps)
    have e2: "plus_cost float64_ints (Finite (lev ic dc sc xs ys)) (substitution_logic x y sc)
        = Finite (lev ic dc sc xs ys + substitution_logic x y sc)"
      using s0 sM total M0 by (intro step) (simp_all add: algebra_simps)
    have e3: "plus_cost float64_ints (Finite (lev ic dc sc (x # xs) ys)) ic
        = Finite (lev ic dc sc (x # xs) ys + ic)"
      using nn(1) M(1) total by (intro step) (simp_all add: algebra_simps)
    show ?case
      by (simp only: table_value.simps lev.simps ih1 ih2 ih3 e1 e2 e3 min_Finite)
  qed
qed

lemma float64_ints_costs_convert:
  assumes nn: "0 \<le> ic" "0 \<le> dc" "0 \<le> sc"
    and bound: "(int (length s) + int (length u)) * max ic (max dc sc) \<le> 2 ^ 53"
  shows "costs_convert float64_ints s u ic dc sc"
proof -
  let ?M = "max ic (max dc sc)"
  have M0: "0 \<le> ?M" using nn by simp
  have small: "?M \<le> 2 ^ 53" if "s \<noteq> [] \<or> u \<noteq> []"
  proof -
    from that have "1 \<le> int (length s) + int (length u)"
      by (cases s; cases u) simp_all
    then have "1 * ?M \<le> (int (length s) + int (length u)) * ?M"
      using M0 by (intro mult_right_mono) simp_all
    with bound show ?thesis by simp
  qed
  have conv: "can_convert float64_ints c" if "0 \<le> c" "c \<le> ?M" "s \<noteq> [] \<or> u \<noteq> []" for c
  proof -
    from that small have "c \<le> 2 ^ 53" by linarith
    with that(1) show ?thesis by (intro float64_ints_converts) simp
  qed
  have "can_convert float64_ints (substitution_logic x y sc)" if "x \<in> set s" for x y :: char
  proof (rule conv)
    show "0 \<le> substitution_logic x y sc" using nn(3) by (rule substitution_logic_nonneg)
    show "substitution_logic x y sc \<le> ?M"
      using substitution_logic_le [OF nn(3), of x y] by simp
    show "s \<noteq> [] \<or> u \<noteq> []" using that by auto
  qed
  moreover have "can_convert float64_ints dc" if "s \<noteq> []"
    using that nn by (intro conv) simp_all
  moreover have "can_convert float64_ints ic" if "u \<noteq> []"
    using that nn by (intro conv) simp_all
  ultimately show ?thesis
    by (simp add: costs_convert_def)
qed

lemma fill_table_exact:
  assumes nn: "0 \<le> ic" "0 \<le> dc" "0 \<le> sc"
    and bound: "(int (length s) + int (length u)) * max ic (max dc sc) \<le> 2 ^ 53"
  obtains cells where "fill_table float64_ints s u ic dc sc = Inr (map (map Finite) cells)"
    and "length cells = Suc (length s)"
    and "\<And>row. row \<in> set cells \<Longrightarrow> length row = Suc (length u)"
    and "\<And>i j. i \<le> length s \<Longrightarrow> j \<le> length u \<Longrightarrow>
           cells ! i ! j = lev ic dc sc (rev (take i s)) (rev (take j u))"
proof -
  let ?M = "max ic (max dc sc)"
  let ?D = "\<lambda>i j. lev ic dc sc (rev (take i s)) (rev (take j u))"
  define cells where "cells = map (\<lambda>i. map (?D i) [0..<Suc (length u)]) [0..<Suc (length s)]"
  have M0: "0 \<le> ?M" using nn by simp
  obtain t where t: "fill_table float64_ints s u ic dc sc = Inr t"
    "length t = Suc (length s)" "\<And>row. row \<in> set t \<Longrightarrow> length row = Suc (length u)"
    "\<And>i j. i \<le> length s \<Longrightarrow> j \<le> length u \<Longrightarrow>
       t ! i ! j = prefix_value float64_ints ic dc sc s u i j"
    using fill_table_cells [OF float64_ints_costs_convert [OF nn bound]] by blast
  have cell: "t ! i ! j = Finite (?D i j)" if ij: "i \<le> length s" "j \<le> length u" for i j
  proof -
    have "int i + int j \<le> int (length s) + int (length u)" using ij by simp
    then have "(int i + int j) * ?M \<le> (int (length s) + int (length u)) * ?M"
      using M0 by (rule mult_right_mono)
    with bound have "(int (length (rev (take i s))) + int (length (rev (take j u)))) * ?M \<le> 2 ^ 53"
      using ij by (simp add: min_def)
    then have "table_value float64_ints ic dc sc (rev (take i s)) (rev (take j u)) = Finite (?D i j)"
      using nn by (intro table_value_exact [where M = ?M]) simp_all
    with t(4) [OF ij] show ?thesis by (simp add: prefix_value_def)
  qed
  have "t = map (map Finite) cells"
  proof (rule nth_equalityI)
    show "length t = length (map (map Finite) cells)"
      using t(2) by (simp add: cells_def)
  next
    fix i assume "i < length t"
    then have i: "i \<le> length s" using t(2) by simp
    then have row: "length (t ! i) = Suc (length u)"
      using t(2,3) by (simp add: nth_mem)
    show "t ! i = map (map Finite) cells ! i"
    proof (rule nth_equalityI)
      show "length (t ! i) = length (map (map Finite) cells ! i)"
        using row i by (simp add: cells_def del: upt_Suc)
    next
      fix j assume "j < length (t ! i)"
      then have j: "j \<le> length u" using row by simp
      have "cells ! i ! j = ?D i j"
        using i j by (simp add: cells_def del: upt_Suc)
      moreover have "map (map Finite) cells ! i ! j = Finite (cells ! i ! j)"
        using i j by (simp add: cells_def del: upt_Suc)
      ultimately show "t ! i ! j = map (map Finite) cells ! i ! j"
        using cell [OF i j] by simp
    qed
  qed
  moreover have "length cells = Suc (length s)" by (simp add: cells_def)
  moreover have "length row = Suc (length u)" if "row \<in> set cells" for row
    using that by (auto simp: cells_def simp del: upt_Suc)
  moreover have "cells ! i ! j = ?D i j" if "i \<le> length s" "j \<le> length u" for i j
    using that by (simp add: cells_def del: upt_Suc)
  ultimately show ?thesis
    using t(1) by (intro that [of cells]) simp_all
qed

lemma fill_table_exact_corner:
  assumes "0 \<le> ic" and "0 \<le> dc" and "0 \<le> sc"
    and "(int (length s) + int (length u)) * max ic (max dc sc) \<le> 2 ^ 53"
  obtains cells where "fill_table float64_ints s u ic dc sc = Inr (map (map Finite) cells)"
    and "cells ! length s ! length u = lev ic dc sc (rev s) (rev u)"
proof -
  obtain cells where c: "fill_table float64_ints s u ic dc sc = Inr (map (map Finite) cells)"
    "length cells = Suc (length s)"
    "\<And>row. row \<in> set cells \<Longrightarrow> length row = Suc (length u)"
    "\<And>i j. i \<le> length s \<Longrightarrow> j \<le> length u \<Longrightarrow>
           cells ! i ! j = lev ic dc sc (rev (take i s)) (rev (take j u))"
    using fill_table_exact [OF assms] by blast
  from c(4) [of "length s" "length u"]
  have "cells ! length s ! length u = lev ic dc sc (rev s) (rev u)" by simp
  with c(1) show ?thesis by (rule that)
qed

section \<open>The cost table and its recurrence\<close>

lemma lev_prefix_Suc_Suc:
  assumes "a < length s" and "b < length u"
  shows "lev ic dc sc (rev (take (Suc a) s)) (rev (take (Suc b) u)) =
     min (lev ic dc sc (rev (take a s)) (rev (take (Suc b) u)) + dc)
       (min (lev ic dc sc (rev (take a s)) (rev (take b u)) + substitution_logic (s ! a) (u ! b) sc)
            (lev ic dc sc (rev (take (Suc a) s)) (rev (take b u)) + ic))"
  using assms by (simp add: take_Suc_conv_app_nth)

text \<open>
  Claim C5, as the code has it. The table is a float64 array, which holds every integer
  up to \<open>2 ^ 53\<close> without rounding. For a source of length \<open>n\<close> and a target of length
  \<open>m\<close> with non-negative integer costs such that \<open>(n + m)\<close> times the largest cost is at
  most \<open>2 ^ 53\<close>, filling the table succeeds, every cell holds an integer, and these
  integers form a table of \<open>n + 1\<close> rows of \<open>m + 1\<close> cells in which row 0 holds
  \<open>j * insert_cost\<close>, column 0 holds \<open>i * delete_cost\<close>, and every other cell is the
  minimum of the cell above plus \<open>delete_cost\<close>, the diagonal cell plus 0 or
  \<open>substitute_cost\<close> (by whether \<open>source[i-1] = target[j-1]\<close>), and the cell to the left
  plus \<open>insert_cost\<close>.
\<close>

theorem cost_table_recurrence:
  assumes "0 \<le> insert_cost" and "0 \<le> delete_cost" and "0 \<le> substitute_cost"
    and "(int (length source) + int (length target)) *
           max insert_cost (max delete_cost substitute_cost) \<le> 2 ^ 53"
  shows "\<exists>table.
     fill_table float64_ints source target insert_cost delete_cost substitute_cost =
       Inr (map (map Finite) table) \<and>
     length table = length source + 1 \<and>
     (\<forall>row \<in> set table. length row = length target + 1) \<and>
     (\<forall>j \<le> length target. table ! 0 ! j = int j * insert_cost) \<and>
     (\<forall>i \<le> length source. table ! i ! 0 = int i * delete_cost) \<and>
     (\<forall>i j. 1 \<le> i \<and> i \<le> length source \<and> 1 \<le> j \<and> j \<le> length target \<longrightarrow>
        table ! i ! j =
          min (table ! (i - 1) ! j + delete_cost)
            (min (table ! (i - 1) ! (j - 1) +
                    (if source ! (i - 1) = target ! (j - 1) then 0 else substitute_cost))
                 (table ! i ! (j - 1) + insert_cost)))"
proof -
  let ?D = "\<lambda>i j. lev insert_cost delete_cost substitute_cost (rev (take i source)) (rev (take j target))"
  obtain t where t:
    "fill_table float64_ints source target insert_cost delete_cost substitute_cost =
       Inr (map (map Finite) t)"
    "length t = Suc (length source)" "\<And>row. row \<in> set t \<Longrightarrow> length row = Suc (length target)"
    "\<And>i j. i \<le> length source \<Longrightarrow> j \<le> length target \<Longrightarrow> t ! i ! j = ?D i j"
    using fill_table_exact [OF assms] by blast
  have row0: "t ! 0 ! j = int j * insert_cost" if "j \<le> length target" for j
    using t(4) [of 0 j] that by (simp add: lev_Nil_left)
  have col0: "t ! i ! 0 = int i * delete_cost" if "i \<le> length source" for i
    using t(4) [of i 0] that by (simp add: lev_Nil_right)
  have inner: "t ! i ! j =
          min (t ! (i - 1) ! j + delete_cost)
            (min (t ! (i - 1) ! (j - 1) +
                    (if source ! (i - 1) = target ! (j - 1) then 0 else substitute_cost))
                 (t ! i ! (j - 1) + insert_cost))"
    if ij: "1 \<le> i" "i \<le> length source" "1 \<le> j" "j \<le> length target" for i j
  proof -
    from ij obtain a b where ab: "i = Suc a" "j = Suc b" "a < length source" "b < length target"
      by (cases i; cases j) auto
    have "t ! Suc a ! Suc b = ?D (Suc a) (Suc b)" "t ! a ! Suc b = ?D a (Suc b)"
      "t ! a ! b = ?D a b" "t ! Suc a ! b = ?D (Suc a) b"
      using ab(3,4) by (simp_all add: t(4))
    then show ?thesis
      using ab lev_prefix_Suc_Suc [OF ab(3,4), of insert_cost delete_cost substitute_cost]
      by (simp add: substitution_logic_def)
  qed
  show ?thesis
    using t(1,2,3) row0 col0 inner by (intro exI [of _ t]) simp
qed

theorem cost_table_recurrence_witness:
  "(0::int) \<le> 1 \<and> (0::int) \<le> 2 \<and>
   (int (length ''ab'') + int (length ''b'')) * max 1 (max 1 2) \<le> (2::int) ^ 53 \<and>
   (\<exists>table. fill_table float64_ints ''ab'' ''b'' 1 1 2 = Inr (map (map Finite) table) \<and>
     length table = length ''ab'' + 1 \<and>
     (\<forall>row \<in> set table. length row = length ''b'' + 1) \<and>
     (\<forall>j \<le> length ''b''. table ! 0 ! j = int j * 1) \<and>
     (\<forall>i \<le> length ''ab''. table ! i ! 0 = int i * 1) \<and>
     (\<forall>i j. 1 \<le> i \<and> i \<le> length ''ab'' \<and> 1 \<le> j \<and> j \<le> length ''b'' \<longrightarrow>
        table ! i ! j =
          min (table ! (i - 1) ! j + 1)
            (min (table ! (i - 1) ! (j - 1) +
                    (if ''ab'' ! (i - 1) = ''b'' ! (j - 1) then 0 else 2))
                 (table ! i ! (j - 1) + 1))))"
proof -
  have h1: "(0::int) \<le> 1" and h2: "(0::int) \<le> 2"
    and h3: "(int (length ''ab'') + int (length ''b'')) * max 1 (max 1 2) \<le> (2::int) ^ 53"
    by simp_all
  from cost_table_recurrence [OF h1 h1 h2 h3] h1 h2 h3 show ?thesis
    by blast
qed

text \<open>
  Claim C5 as stated fails beyond \<open>2 ^ 53\<close>, where each addition into the table
  rounds. With the insertion cost \<open>2 ^ 53 + 2\<close>, itself a float64, and the empty source,
  the cell \<open>[0][6]\<close> for the target \<open>abcdef\<close> holds 54043195528445960, which is
  neither \<open>6 * insert_cost\<close> = 54043195528445964 nor the float64 nearest to that
  product, 54043195528445968.
\<close>

theorem closed_form_fails_beyond_2_53:
  "(0::int) \<le> 2 ^ 53 + 2 \<and>
   fill_table float64_ints '''' ''abcdef'' (2 ^ 53 + 2) 1 2 =
     Inr [[Finite 0, Finite 9007199254740994, Finite 18014398509481988,
           Finite 27021597764222984, Finite 36028797018963976, Finite 45035996273704968,
           Finite 54043195528445960]] \<and>
   int 6 * (2 ^ 53 + 2) = 54043195528445964 \<and>
   round53 (int 6 * (2 ^ 53 + 2)) = 54043195528445968"
  by code_simp

section \<open>Minimum cost, cost validation, symmetry and the triangle inequality\<close>

text \<open>
  Claim C1, as the code has it. For non-negative integer costs such that the sum of the
  two lengths times the largest cost is at most \<open>2 ^ 53\<close>, the table the computation
  fills holds, in cell \<open>[len(source)][len(target)]\<close>, the minimum total cost over all
  sequences of single-symbol insertions, deletions and substitutions that transform the
  source into the target: some such sequence has that cost and none has less.
\<close>

theorem corner_cell_is_minimum_cost:
  assumes "0 \<le> insert_cost" and "0 \<le> delete_cost" and "0 \<le> substitute_cost"
    and "(int (length source) + int (length target)) *
           max insert_cost (max delete_cost substitute_cost) \<le> 2 ^ 53"
  shows "\<exists>table distance.
     fill_table float64_ints source target insert_cost delete_cost substitute_cost = Inr table \<and>
     table ! length source ! length target = Finite distance \<and>
     (\<exists>es. apply_edits es source = Some target \<and>
        script_cost insert_cost delete_cost substitute_cost es = distance) \<and>
     (\<forall>es. apply_edits es source = Some target \<longrightarrow>
        distance \<le> script_cost insert_cost delete_cost substitute_cost es)"
proof -
  let ?d = "lev insert_cost delete_cost substitute_cost (rev source) (rev target)"
  obtain t where t:
    "fill_table float64_ints source target insert_cost delete_cost substitute_cost =
       Inr (map (map Finite) t)"
    "length t = Suc (length source)" "\<And>row. row \<in> set t \<Longrightarrow> length row = Suc (length target)"
    "\<And>i j. i \<le> length source \<Longrightarrow> j \<le> length target \<Longrightarrow>
       t ! i ! j = lev insert_cost delete_cost substitute_cost (rev (take i source)) (rev (take j target))"
    using fill_table_exact [OF assms] by blast
  have "length (t ! length source) = Suc (length target)"
    using t(2,3) by (simp add: nth_mem)
  then have corner: "map (map Finite) t ! length source ! length target = Finite ?d"
    using t(2) t(4) [of "length source" "length target"] by simp
  from lev_attained [of "rev source" "rev target" insert_cost delete_cost substitute_cost]
  have "\<exists>es. apply_edits es source = Some target \<and>
      script_cost insert_cost delete_cost substitute_cost es = ?d"
    by simp
  moreover have "\<forall>es. apply_edits es source = Some target \<longrightarrow>
      ?d \<le> script_cost insert_cost delete_cost substitute_cost es"
    using lev_lower_bound [OF assms(1,2,3)] by blast
  ultimately show ?thesis using t(1) corner by blast
qed

theorem corner_cell_is_minimum_cost_witness:
  "(0::int) \<le> 1 \<and> (0::int) \<le> 2 \<and>
   (int (length ''ab'') + int (length ''b'')) * max 1 (max 1 2) \<le> (2::int) ^ 53 \<and>
   (\<exists>table distance. fill_table float64_ints ''ab'' ''b'' 1 1 2 = Inr table \<and>
     table ! length ''ab'' ! length ''b'' = Finite distance \<and>
     (\<exists>es. apply_edits es ''ab'' = Some ''b'' \<and> script_cost 1 1 2 es = distance) \<and>
     (\<forall>es. apply_edits es ''ab'' = Some ''b'' \<longrightarrow> distance \<le> script_cost 1 1 2 es))"
proof -
  have h1: "(0::int) \<le> 1" and h2: "(0::int) \<le> 2"
    and h3: "(int (length ''ab'') + int (length ''b'')) * max 1 (max 1 2) \<le> (2::int) ^ 53"
    by simp_all
  from corner_cell_is_minimum_cost [OF h1 h1 h2 h3] h1 h2 h3 show ?thesis
    by blast
qed

text \<open>
  Claim C1 as stated fails beyond \<open>2 ^ 53\<close>. With the insertion cost \<open>2 ^ 53 + 6\<close>,
  itself a float64, the table filled for the empty source and the target \<open>abcdef\<close>
  has 54043195528445992 in its corner, while the six insertions that build the target
  cost 54043195528445988: the corner is not the minimum. The float64 nearest to the cost
  of the six insertions, 54043195528445984, is below the corner too.
\<close>

theorem corner_exceeds_script_cost:
  "(0::int) \<le> 2 ^ 53 + 6 \<and>
   and_then (fill_table float64_ints '''' ''abcdef'' (2 ^ 53 + 6) 1 2)
     (\<lambda>table. Inr (table ! length '''' ! length ''abcdef'')) = Inr (Finite 54043195528445992) \<and>
   apply_edits [Insert 0 CHR ''a'', Insert 1 CHR ''b'', Insert 2 CHR ''c'', Insert 3 CHR ''d'',
     Insert 4 CHR ''e'', Insert 5 CHR ''f''] '''' = Some ''abcdef'' \<and>
   script_cost (2 ^ 53 + 6) 1 2 [Insert 0 CHR ''a'', Insert 1 CHR ''b'', Insert 2 CHR ''c'',
     Insert 3 CHR ''d'', Insert 4 CHR ''e'', Insert 5 CHR ''f''] = 54043195528445988 \<and>
   (54043195528445988 :: int) < 54043195528445992 \<and>
   round53 54043195528445988 = 54043195528445984"
  by code_simp

text \<open>
  Claim C4, as the code has it. The computation never looks at the sign of a cost and
  has no error of its own for a cost. For every source and target, empty ones included,
  all costs, and whatever the arithmetic of the table, float64 included: when every cost
  the loops add converts to a cell value (the deletion cost, added only for a non-empty
  source; the insertion cost, added only for a non-empty target; what
  \<open>substitution_logic\<close> returns for a letter of the source and a letter of the target),
  filling the table raises nothing and yields \<open>len(source) + 1\<close> rows of
  \<open>len(target) + 1\<close> cells; otherwise it raises \<open>OverflowError\<close>. An integer cost
  converts to a float64 when its magnitude is below \<open>2 ^ 1024 - 2 ^ 970\<close>, negative or
  not (\<open>float64_ints\<close>).
\<close>

theorem costs_fail_only_by_overflow:
  "if costs_convert A source target insert_cost delete_cost substitute_cost
   then \<exists>table.
     fill_table A source target insert_cost delete_cost substitute_cost = Inr table \<and>
     length table = length source + 1 \<and>
     (\<forall>row \<in> set table. length row = length target + 1)
   else fill_table A source target insert_cost delete_cost substitute_cost = Inl OverflowError"
proof (cases "costs_convert A source target insert_cost delete_cost substitute_cost")
  case True
  obtain t where
    "fill_table A source target insert_cost delete_cost substitute_cost = Inr t"
    "length t = Suc (length source)" "\<And>row. row \<in> set t \<Longrightarrow> length row = Suc (length target)"
    "\<And>i j. i \<le> length source \<Longrightarrow> j \<le> length target \<Longrightarrow>
       t ! i ! j = prefix_value A insert_cost delete_cost substitute_cost source target i j"
    using fill_table_cells [OF True] by blast
  with True show ?thesis by simp
next
  case False
  then show ?thesis by (simp add: fill_table_overflow)
qed

theorem costs_fail_only_by_overflow_witness:
  "costs_convert float64_ints '''' ''a'' (- 1) 1 2 \<and>
   (\<exists>table. fill_table float64_ints '''' ''a'' (- 1) 1 2 = Inr table \<and>
     length table = length '''' + 1 \<and>
     (\<forall>row \<in> set table. length row = length ''a'' + 1))"
proof -
  have h: "costs_convert float64_ints '''' ''a'' (- 1) 1 2"
    by (simp add: costs_convert_def float64_ints_def)
  from costs_fail_only_by_overflow [of float64_ints "''''" "''a''" "- 1" 1 2] h show ?thesis
    by simp
qed

text \<open>
  Claim C4 as stated fails in both directions. A negative insertion cost is not
  rejected: the table is filled with it, and the call returns a frame when \<open>res\<close> holds
  an array of the right shape. A non-negative cost can fail: the insertion cost
  \<open>2 ^ 1024\<close> does not convert to a float64, and adding it raises \<open>OverflowError\<close>.
\<close>

theorem negative_cost_accepted_huge_cost_refused:
  "fill_table float64_ints '''' ''a'' (- 1) 1 2 = Inr [[Finite 0, Finite (- 1)]] \<and>
   min_edit_distance float64_ints (Some [[0, - 1]]) '''' ''a'' (- 1) 1 2 =
     Inr \<lparr>df_columns = ''#a'', df_index = ''#'', df_values = [[0, - 1]]\<rparr> \<and>
   (0::int) \<le> 2 ^ 1024 \<and>
   fill_table float64_ints '''' ''a'' (2 ^ 1024) 1 2 = Inl OverflowError \<and>
   min_edit_distance float64_ints (Some [[0, 0]]) '''' ''a'' (2 ^ 1024) 1 2 = Inl OverflowError"
  by code_simp

text \<open>
  Claim C8. With \<open>insert_cost = delete_cost\<close>, the distance from \<open>s\<close> to \<open>t\<close> equals
  the distance from \<open>t\<close> to \<open>s\<close>, whatever the costs and whatever the arithmetic of the
  table, float64 included: either both tables are filled and the cell
  \<open>[len(s)][len(t)]\<close> of the one equals the cell \<open>[len(t)][len(s)]\<close> of the other, or a
  cost does not convert and both computations raise \<open>OverflowError\<close>. The distance is
  the cell \<open>[len(source)][len(target)]\<close> of the filled table.
\<close>

theorem edit_distance_symmetric:
  assumes "insert_cost = delete_cost"
  shows "if costs_convert A s t insert_cost delete_cost substitute_cost
     then \<exists>table_st table_ts.
       fill_table A s t insert_cost delete_cost substitute_cost = Inr table_st \<and>
       fill_table A t s insert_cost delete_cost substitute_cost = Inr table_ts \<and>
       table_st ! length s ! length t = table_ts ! length t ! length s
     else fill_table A s t insert_cost delete_cost substitute_cost = Inl OverflowError \<and>
       fill_table A t s insert_cost delete_cost substitute_cost = Inl OverflowError"
proof (cases "costs_convert A s t insert_cost delete_cost substitute_cost")
  case True
  then have swapped: "costs_convert A t s insert_cost delete_cost substitute_cost"
    using costs_convert_swap [of A s t insert_cost substitute_cost] assms by simp
  obtain table_st where f: "fill_table A s t insert_cost delete_cost substitute_cost = Inr table_st"
    "length table_st = Suc (length s)"
    "\<And>row. row \<in> set table_st \<Longrightarrow> length row = Suc (length t)"
    "\<And>i j. i \<le> length s \<Longrightarrow> j \<le> length t \<Longrightarrow>
       table_st ! i ! j = prefix_value A insert_cost delete_cost substitute_cost s t i j"
    using fill_table_cells [OF True] by blast
  obtain table_ts where b: "fill_table A t s insert_cost delete_cost substitute_cost = Inr table_ts"
    "length table_ts = Suc (length t)"
    "\<And>row. row \<in> set table_ts \<Longrightarrow> length row = Suc (length s)"
    "\<And>i j. i \<le> length t \<Longrightarrow> j \<le> length s \<Longrightarrow>
       table_ts ! i ! j = prefix_value A insert_cost delete_cost substitute_cost t s i j"
    using fill_table_cells [OF swapped] by blast
  have "prefix_value A insert_cost delete_cost substitute_cost s t (length s) (length t) =
      prefix_value A insert_cost delete_cost substitute_cost t s (length t) (length s)"
    using table_value_swap [of A insert_cost delete_cost substitute_cost "rev s" "rev t"] assms
    by (simp add: prefix_value_def)
  then have "table_st ! length s ! length t = table_ts ! length t ! length s"
    using f(4) [of "length s" "length t"] b(4) [of "length t" "length s"] by simp
  with True f(1) b(1) show ?thesis by simp
next
  case False
  then have "\<not> costs_convert A t s insert_cost delete_cost substitute_cost"
    using costs_convert_swap [of A s t insert_cost substitute_cost] assms by simp
  with False show ?thesis by (simp add: fill_table_overflow)
qed

theorem edit_distance_symmetric_witness:
  "(1::int) = 1 \<and> costs_convert float64_ints ''ab'' ''b'' 1 1 2 \<and>
   (\<exists>table_st table_ts.
     fill_table float64_ints ''ab'' ''b'' 1 1 2 = Inr table_st \<and>
     fill_table float64_ints ''b'' ''ab'' 1 1 2 = Inr table_ts \<and>
     table_st ! length ''ab'' ! length ''b'' = table_ts ! length ''b'' ! length ''ab'')"
proof -
  have h0: "(1::int) = 1" by simp
  have h: "costs_convert float64_ints ''ab'' ''b'' 1 1 2"
    by (simp add: costs_convert_def float64_ints_def substitution_logic_def)
  from edit_distance_symmetric [OF h0, of float64_ints "''ab''" "''b''" 2] h show ?thesis
    by simp
qed

text \<open>
  Claim C9, as the code has it. For non-negative integer costs with
  \<open>insert_cost = delete_cost\<close> and \<open>substitute_cost \<le> insert_cost + delete_cost\<close>, and
  such that \<open>len(a) + 2 * len(b) + len(c)\<close> times the largest cost is at most \<open>2 ^ 53\<close>,
  the three distances are integers that float64 holds without rounding, so is the sum
  of the distance from \<open>a\<close> to \<open>b\<close> and the distance from \<open>b\<close> to \<open>c\<close>, and the
  distance from \<open>a\<close> to \<open>c\<close> is at most that sum.
\<close>

theorem edit_distance_triangle:
  assumes "insert_cost = delete_cost"
    and "substitute_cost \<le> insert_cost + delete_cost"
    and "0 \<le> insert_cost" and "0 \<le> delete_cost" and "0 \<le> substitute_cost"
    and "(int (length a) + 2 * int (length b) + int (length c)) *
           max insert_cost (max delete_cost substitute_cost) \<le> 2 ^ 53"
  shows "\<exists>ac ab bc.
     fill_table float64_ints a c insert_cost delete_cost substitute_cost = Inr (map (map Finite) ac) \<and>
     fill_table float64_ints a b insert_cost delete_cost substitute_cost = Inr (map (map Finite) ab) \<and>
     fill_table float64_ints b c insert_cost delete_cost substitute_cost = Inr (map (map Finite) bc) \<and>
     ac ! length a ! length c \<le> ab ! length a ! length b + bc ! length b ! length c \<and>
     ab ! length a ! length b + bc ! length b ! length c \<le> 2 ^ 53"
proof -
  let ?d = "lev insert_cost delete_cost substitute_cost"
  let ?M = "max insert_cost (max delete_cost substitute_cost)"
  have M0: "0 \<le> ?M" using assms(3) by simp
  have mono: "k * ?M \<le> (int (length a) + 2 * int (length b) + int (length c)) * ?M"
    if "k \<le> int (length a) + 2 * int (length b) + int (length c)" for k
    using that M0 by (rule mult_right_mono)
  have bac: "(int (length a) + int (length c)) * ?M \<le> 2 ^ 53"
    using mono [of "int (length a) + int (length c)"] assms(6) by simp
  have bab: "(int (length a) + int (length b)) * ?M \<le> 2 ^ 53"
    using mono [of "int (length a) + int (length b)"] assms(6) by simp
  have bbc: "(int (length b) + int (length c)) * ?M \<le> 2 ^ 53"
    using mono [of "int (length b) + int (length c)"] assms(6) by simp
  obtain ac where ac:
    "fill_table float64_ints a c insert_cost delete_cost substitute_cost = Inr (map (map Finite) ac)"
    "ac ! length a ! length c = ?d (rev a) (rev c)"
    by (rule fill_table_exact_corner [OF assms(3,4,5) bac])
  obtain ab where ab:
    "fill_table float64_ints a b insert_cost delete_cost substitute_cost = Inr (map (map Finite) ab)"
    "ab ! length a ! length b = ?d (rev a) (rev b)"
    by (rule fill_table_exact_corner [OF assms(3,4,5) bab])
  obtain bc where bc:
    "fill_table float64_ints b c insert_cost delete_cost substitute_cost = Inr (map (map Finite) bc)"
    "bc ! length b ! length c = ?d (rev b) (rev c)"
    by (rule fill_table_exact_corner [OF assms(3,4,5) bbc])
  have tri: "?d (rev a) (rev c) \<le> ?d (rev a) (rev b) + ?d (rev b) (rev c)"
    by (rule lev_triangle [OF assms(3,4,5)])
  have "?d (rev a) (rev b) \<le> (int (length (rev a)) + int (length (rev b))) * ?M"
    "?d (rev b) (rev c) \<le> (int (length (rev b)) + int (length (rev c))) * ?M"
    using assms(3) by (intro lev_upper; simp)+
  then have "?d (rev a) (rev b) + ?d (rev b) (rev c) \<le>
      (int (length a) + 2 * int (length b) + int (length c)) * ?M"
    by (simp add: algebra_simps)
  with assms(6) have "?d (rev a) (rev b) + ?d (rev b) (rev c) \<le> 2 ^ 53" by simp
  with tri ac ab bc show ?thesis
    by (intro exI [of _ ac] exI [of _ ab] exI [of _ bc]) simp
qed

theorem edit_distance_triangle_witness:
  "(1::int) = 1 \<and> (2::int) \<le> 1 + 1 \<and> (0::int) \<le> 1 \<and> (0::int) \<le> 2 \<and>
   (int (length ''ab'') + 2 * int (length ''b'') + int (length ''ca'')) * max 1 (max 1 2)
     \<le> (2::int) ^ 53 \<and>
   (\<exists>ac ab bc.
     fill_table float64_ints ''ab'' ''ca'' 1 1 2 = Inr (map (map Finite) ac) \<and>
     fill_table float64_ints ''ab'' ''b'' 1 1 2 = Inr (map (map Finite) ab) \<and>
     fill_table float64_ints ''b'' ''ca'' 1 1 2 = Inr (map (map Finite) bc) \<and>
     ac ! length ''ab'' ! length ''ca'' \<le> ab ! length ''ab'' ! length ''b'' + bc ! length ''b'' ! length ''ca'' \<and>
     ab ! length ''ab'' ! length ''b'' + bc ! length ''b'' ! length ''ca'' \<le> 2 ^ 53)"
proof -
  have h0: "(1::int) = 1" and h1: "(0::int) \<le> 1" and h2: "(0::int) \<le> 2"
    and h3: "(2::int) \<le> 1 + 1"
    and h4: "(int (length ''ab'') + 2 * int (length ''b'') + int (length ''ca'')) * max 1 (max 1 2)
       \<le> (2::int) ^ 53"
    by simp_all
  from edit_distance_triangle [OF h0 h3 h1 h1 h2 h4] h0 h1 h2 h3 h4
  show ?thesis by blast
qed

text \<open>
  Claim C9 as stated fails beyond \<open>2 ^ 53\<close>, for non-negative costs that meet its two
  conditions. With every insertion and deletion costing \<open>2 ^ 53 + 14\<close>, itself a
  float64, and every substitution 2, the distance from the empty string to \<open>xyzwv\<close> is
  45035996273705032, the distance from the empty string to \<open>xy\<close> is 18014398509482012
  and the distance from \<open>xy\<close> to \<open>xyzwv\<close> is 27021597764223016. The last two add up to
  45035996273705028, and in float64 to 45035996273705024; both are below the first.
\<close>

theorem triangle_fails_beyond_2_53:
  "(2 ^ 53 + 14 :: int) = 2 ^ 53 + 14 \<and> (2 :: int) \<le> (2 ^ 53 + 14) + (2 ^ 53 + 14) \<and>
   (0 :: int) \<le> 2 ^ 53 + 14 \<and> (0 :: int) \<le> 2 \<and>
   and_then (fill_table float64_ints '''' ''xyzwv'' (2 ^ 53 + 14) (2 ^ 53 + 14) 2)
     (\<lambda>table. Inr (table ! length '''' ! length ''xyzwv'')) = Inr (Finite 45035996273705032) \<and>
   and_then (fill_table float64_ints '''' ''xy'' (2 ^ 53 + 14) (2 ^ 53 + 14) 2)
     (\<lambda>table. Inr (table ! length '''' ! length ''xy'')) = Inr (Finite 18014398509482012) \<and>
   and_then (fill_table float64_ints ''xy'' ''xyzwv'' (2 ^ 53 + 14) (2 ^ 53 + 14) 2)
     (\<lambda>table. Inr (table ! length ''xy'' ! length ''xyzwv'')) = Inr (Finite 27021597764223016) \<and>
   \<not> (45035996273705032 :: int) \<le> 18014398509482012 + 27021597764223016 \<and>
   \<not> Finite 45035996273705032 \<le> float64_sum (Finite 18014398509482012) 27021597764223016"
  by code_simp

section \<open>Counting pairs\<close>

lemma adjacent_pairs_index:
  "map (\<lambda>index. (xs ! index, xs ! (index + 1))) [0..<length xs - 1] = adjacent_pairs xs"
  by (rule nth_equalityI) (auto simp: adjacent_pairs_def nth_tl)

lemma inner_loop_add_count:
  "fold (\<lambda>index. AList.map_default (xs ! index, xs ! (index + 1)) (0 + value) (\<lambda>c. c + value))
     [0..<length xs - 1] pairs =
   fold add_count (map (\<lambda>pair. (pair, value)) (adjacent_pairs xs)) pairs"
proof -
  have "fold add_count (map (\<lambda>pair. (pair, value)) (adjacent_pairs xs)) pairs =
      fold add_count (map (\<lambda>index. ((xs ! index, xs ! (index + 1)), value)) [0..<length xs - 1]) pairs"
    by (simp only: adjacent_pairs_index [symmetric] map_map o_def)
  also have "\<dots> = fold (\<lambda>index. add_count ((xs ! index, xs ! (index + 1)), value)) [0..<length xs - 1] pairs"
    by (simp only: fold_map o_def)
  finally show ?thesis
    by (simp add: add_count_def [abs_def])
qed

lemma count_token_pairs_add_count:
  "count_token_pairs (token, freq) pairs =
     fold add_count (map (\<lambda>pair. (pair, freq)) (adjacent_pairs (str_split token))) pairs"
  by (simp only: count_token_pairs_def prod.case Let_def inner_loop_add_count)

lemma count_pairs_fold_from:
  "fold count_token_pairs counts acc = fold add_count (increments counts) acc"
proof (induction counts arbitrary: acc)
  case Nil
  show ?case by (simp add: increments_def)
next
  case (Cons kv counts)
  obtain token freq where kv: "kv = (token, freq)" by (cases kv)
  have inc: "increments (kv # counts) =
      map (\<lambda>pair. (pair, freq)) (adjacent_pairs (str_split token)) @ increments counts"
    by (simp add: increments_def kv)
  show ?case
    unfolding inc by (simp add: kv count_token_pairs_add_count Cons.IH)
qed

lemma count_pairs_increments: "count_pairs counts = fold add_count (increments counts) []"
  unfolding count_pairs_def by (rule count_pairs_fold_from)

lemma fold_best_first_max:
  fixes b :: "'k \<times> int"
  defines "step \<equiv> (\<lambda>item best. if snd best < snd item then item else best)"
  shows "\<exists>i \<le> length rest. fold step rest b = (b # rest) ! i \<and>
           (\<forall>j \<le> length rest. snd ((b # rest) ! j) \<le> snd ((b # rest) ! i)) \<and>
           (\<forall>j < i. snd ((b # rest) ! j) < snd ((b # rest) ! i))"
proof (induction rest rule: rev_induct)
  case Nil
  show ?case by simp
next
  case (snoc x rest)
  define whole where "whole = b # rest"
  have len: "length whole = Suc (length rest)" by (simp add: whole_def)
  have ext: "b # rest @ [x] = whole @ [x]" by (simp add: whole_def)
  from snoc obtain i where i: "i < length whole" "fold step rest b = whole ! i"
    "\<forall>j < length whole. snd (whole ! j) \<le> snd (whole ! i)"
    "\<forall>j < i. snd (whole ! j) < snd (whole ! i)"
    unfolding whole_def [symmetric] len by (auto simp: less_Suc_eq_le)
  have old: "(whole @ [x]) ! j = whole ! j" if "j < length whole" for j
    using that by (simp add: nth_append)
  have new: "(whole @ [x]) ! length whole = x"
    by simp
  have goal: "\<exists>i < length (whole @ [x]). fold step (rest @ [x]) b = (whole @ [x]) ! i \<and>
           (\<forall>j < length (whole @ [x]). snd ((whole @ [x]) ! j) \<le> snd ((whole @ [x]) ! i)) \<and>
           (\<forall>j < i. snd ((whole @ [x]) ! j) < snd ((whole @ [x]) ! i))"
  proof (cases "snd (whole ! i) < snd x")
    case True
    have res: "fold step (rest @ [x]) b = x"
      using True i(2) by (simp add: step_def)
    have le: "snd ((whole @ [x]) ! j) \<le> snd x" if "j < length (whole @ [x])" for j
    proof (cases "j < length whole")
      case True
      with i(3) have "snd (whole ! j) \<le> snd (whole ! i)" by blast
      with \<open>snd (whole ! i) < snd x\<close> old [OF True] show ?thesis by simp
    next
      case False
      with that have "j = length whole" by simp
      then show ?thesis by simp
    qed
    have lt: "snd ((whole @ [x]) ! j) < snd x" if "j < length whole" for j
    proof -
      from i(3) that have "snd (whole ! j) \<le> snd (whole ! i)" by blast
      with True old [OF that] show ?thesis by simp
    qed
    show ?thesis
    proof (intro exI [of _ "length whole"] conjI allI impI)
      show "length whole < length (whole @ [x])" by simp
      show "fold step (rest @ [x]) b = (whole @ [x]) ! length whole" using res new by simp
      show "snd ((whole @ [x]) ! j) \<le> snd ((whole @ [x]) ! length whole)"
        if "j < length (whole @ [x])" for j using le [OF that] new by simp
      show "snd ((whole @ [x]) ! j) < snd ((whole @ [x]) ! length whole)"
        if "j < length whole" for j using lt [OF that] new by simp
    qed
  next
    case False
    have res: "fold step (rest @ [x]) b = whole ! i"
      using False i(2) by (simp add: step_def)
    have le: "snd ((whole @ [x]) ! j) \<le> snd (whole ! i)" if "j < length (whole @ [x])" for j
    proof (cases "j < length whole")
      case True
      with i(3) old [OF True] show ?thesis by simp
    next
      case F: False
      with that have "j = length whole" by simp
      with False show ?thesis by simp
    qed
    have lt: "snd ((whole @ [x]) ! j) < snd (whole ! i)" if "j < i" for j
    proof -
      from that i(1) have "j < length whole" by simp
      from old [OF this] i(4) that show ?thesis by simp
    qed
    show ?thesis
    proof (intro exI [of _ i] conjI allI impI)
      show "i < length (whole @ [x])" using i(1) by simp
      show "fold step (rest @ [x]) b = (whole @ [x]) ! i" using res old [OF i(1)] by simp
      show "snd ((whole @ [x]) ! j) \<le> snd ((whole @ [x]) ! i)"
        if "j < length (whole @ [x])" for j using le [OF that] old [OF i(1)] by simp
      show "snd ((whole @ [x]) ! j) < snd ((whole @ [x]) ! i)"
        if "j < i" for j using lt [OF that] old [OF i(1)] by simp
    qed
  qed
  have len': "length (whole @ [x]) = Suc (length (rest @ [x]))" by (simp add: len)
  show ?case
    using goal unfolding ext [symmetric] len' by (auto simp: less_Suc_eq_le)
qed

lemma max_by_value_first_max:
  assumes "al \<noteq> []"
  obtains i where "i < length al" and "max_by_value al = Inr (fst (al ! i))"
    and "\<And>j. j < length al \<Longrightarrow> snd (al ! j) \<le> snd (al ! i)"
    and "\<And>j. j < i \<Longrightarrow> snd (al ! j) < snd (al ! i)"
proof -
  from assms obtain b rest where al: "al = b # rest" by (cases al) auto
  from fold_best_first_max [of rest b]
  obtain i where i: "i \<le> length rest"
    "fold (\<lambda>item best. if snd best < snd item then item else best) rest b = (b # rest) ! i"
    "\<forall>j \<le> length rest. snd ((b # rest) ! j) \<le> snd ((b # rest) ! i)"
    "\<forall>j < i. snd ((b # rest) ! j) < snd ((b # rest) ! i)"
    by blast
  show ?thesis
  proof (rule that [of i])
    show "i < length al" using i(1) al by simp
    show "max_by_value al = Inr (fst (al ! i))" using i(2) al by simp
    show "snd (al ! j) \<le> snd (al ! i)" if "j < length al" for j
      using that i(3) al by (simp add: less_Suc_eq_le)
    show "snd (al ! j) < snd (al ! i)" if "j < i" for j
      using that i(4) al by simp
  qed
qed

lemma add_count_keys:
  "map fst (add_count kv al) = (if fst kv \<in> fst ` set al then map fst al else map fst al @ [fst kv])"
  unfolding add_count_def by (induction al) auto

lemma fold_add_count_keys_prefix: "\<exists>more. map fst (fold add_count incs al) = map fst al @ more"
proof (induction incs arbitrary: al)
  case Nil
  show ?case by simp
next
  case (Cons kv incs)
  from Cons [of "add_count kv al"] obtain more
    where "map fst (fold add_count incs (add_count kv al)) = map fst (add_count kv al) @ more"
    by blast
  then show ?case by (auto simp: add_count_keys)
qed

lemma fold_add_count_dom:
  "fst ` set (fold add_count incs al) = fst ` set al \<union> fst ` set incs"
proof (induction incs arbitrary: al)
  case Nil
  show ?case by simp
next
  case (Cons kv incs)
  have "fst ` set (add_count kv al) = insert (fst kv) (fst ` set al)"
    unfolding add_count_def by (rule dom_map_default)
  with Cons [of "add_count kv al"] show ?case by auto
qed

lemma fold_add_count_distinct:
  "distinct (map fst al) \<Longrightarrow> distinct (map fst (fold add_count incs al))"
proof (induction incs arbitrary: al)
  case Nil
  then show ?case by simp
next
  case (Cons kv incs)
  have "distinct (map fst (add_count kv al))"
    unfolding add_count_def using Cons.prems by (rule distinct_map_default)
  from Cons.IH [OF this] show ?case by simp
qed

lemma map_of_add_count:
  "map_of (add_count kv al) k =
     (if k = fst kv then Some ((case map_of al k of None \<Rightarrow> 0 | Some c \<Rightarrow> c) + snd kv)
      else map_of al k)"
  unfolding add_count_def by (simp add: map_of_map_default split: option.splits)

lemma fold_add_count_value:
  "k \<in> fst ` set al \<union> fst ` set incs \<Longrightarrow>
   map_of (fold add_count incs al) k =
     Some ((case map_of al k of None \<Rightarrow> 0 | Some c \<Rightarrow> c) +
           sum_list (map snd (filter (\<lambda>kv. fst kv = k) incs)))"
proof (induction incs arbitrary: al)
  case Nil
  then obtain c where "map_of al k = Some c"
    by (metis Un_empty_right domD dom_map_of_conv_image_fst image_empty list.set(1))
  then show ?case by simp
next
  case (Cons kv incs)
  have dom: "fst ` set (add_count kv al) = insert (fst kv) (fst ` set al)"
    unfolding add_count_def by (rule dom_map_default)
  from Cons.prems have "k \<in> fst ` set (add_count kv al) \<union> fst ` set incs"
    unfolding dom by auto
  from Cons.IH [OF this] show ?case
    by (simp add: map_of_add_count)
qed

lemma pair_occurrences_sum:
  "sum_list (map snd (filter (\<lambda>kv. fst kv = q) (map (\<lambda>pair. (pair, freq)) ps))) =
     freq * int (count_list ps q)"
  by (induction ps) (auto simp: algebra_simps)

lemma increments_sum:
  "sum_list (map snd (filter (\<lambda>kv. fst kv = q) (increments counts))) = weighted_count counts q"
  unfolding increments_def weighted_count_def
  by (induction counts) (auto simp: pair_occurrences_sum)

lemma increments_keys: "map fst (increments counts) = scanned_pairs counts"
  unfolding increments_def scanned_pairs_def
  by (induction counts) (auto simp: o_def)

lemma count_pairs_value:
  assumes "q \<in> set (scanned_pairs counts)"
  shows "map_of (count_pairs counts) q = Some (weighted_count counts q)"
proof -
  from assms have "q \<in> fst ` set [] \<union> fst ` set (increments counts)"
    by (simp add: increments_keys [symmetric])
  from fold_add_count_value [OF this] show ?thesis
    by (simp add: count_pairs_increments increments_sum)
qed

lemma keys_before_first:
  assumes "p \<in> fst ` set incs"
  shows "\<exists>front more. map fst (fold add_count incs []) = front @ p # more \<and>
           set front = set (takeWhile (\<lambda>q. q \<noteq> p) (map fst incs))"
proof -
  define pre where "pre = takeWhile (\<lambda>kv. fst kv \<noteq> p) incs"
  define rest where "rest = dropWhile (\<lambda>kv. fst kv \<noteq> p) incs"
  have split: "incs = pre @ rest" by (simp add: pre_def rest_def)
  from assms have "rest \<noteq> []"
    unfolding rest_def by (auto simp: dropWhile_eq_Nil_conv)
  then obtain kv r where rest: "rest = kv # r" by (cases rest) auto
  have kv: "fst kv = p"
    using hd_dropWhile [of "\<lambda>kv. fst kv \<noteq> p" incs] \<open>rest \<noteq> []\<close> rest
    unfolding rest_def by auto
  define front where "front = map fst (fold add_count pre [])"
  have front_set: "set front = set (takeWhile (\<lambda>q. q \<noteq> p) (map fst incs))"
    unfolding front_def pre_def using fold_add_count_dom [of "takeWhile (\<lambda>kv. fst kv \<noteq> p) incs" "[]"]
    by (simp add: takeWhile_map o_def)
  have "p \<notin> set front"
    unfolding front_set by (auto dest: set_takeWhileD)
  then have "map fst (add_count kv (fold add_count pre [])) = front @ [p]"
    by (simp add: add_count_keys kv front_def)
  moreover from fold_add_count_keys_prefix [of r "add_count kv (fold add_count pre [])"]
  obtain more where "map fst (fold add_count r (add_count kv (fold add_count pre []))) =
      map fst (add_count kv (fold add_count pre [])) @ more" by blast
  ultimately have "map fst (fold add_count incs []) = front @ p # more"
    by (simp add: split rest)
  with front_set show ?thesis by blast
qed

section \<open>Splitting, joining and the merge scan\<close>

lemma split_from_clean:
  "s \<in> set (split_from word cs) \<Longrightarrow> \<forall>c \<in> set word. \<not> is_space c \<Longrightarrow> clean s"
proof (induction cs arbitrary: word)
  case Nil
  then show ?case by (simp add: clean_def split: if_splits)
next
  case (Cons c cs)
  show ?case
  proof (cases "is_space c")
    case True
    show ?thesis
    proof (cases "word = []")
      case True
      with \<open>is_space c\<close> Cons.prems(1) have "s \<in> set (split_from [] cs)" by simp
      then show ?thesis by (rule Cons.IH) simp
    next
      case False
      with \<open>is_space c\<close> Cons.prems(1) have "s = word \<or> s \<in> set (split_from [] cs)" by simp
      then show ?thesis
      proof
        assume "s = word"
        with False Cons.prems(2) show ?thesis by (simp add: clean_def)
      next
        assume "s \<in> set (split_from [] cs)"
        then show ?thesis by (rule Cons.IH) simp
      qed
    qed
  next
    case False
    with Cons.prems(1) have "s \<in> set (split_from (word @ [c]) cs)" by simp
    then show ?thesis
      by (rule Cons.IH) (use False Cons.prems(2) in simp)
  qed
qed

lemma str_split_clean: "s \<in> set (str_split token) \<Longrightarrow> clean s"
  using split_from_clean [of s "[]" token] by (simp add: str_split_def)

lemma split_from_word:
  "\<forall>c \<in> set x. \<not> is_space c \<Longrightarrow> split_from word (x @ cs) = split_from (word @ x) cs"
  by (induction x arbitrary: word) auto

lemma str_split_join:
  "\<forall>s \<in> set xs. clean s \<Longrightarrow> str_split (str_join '' '' xs) = xs"
proof (induction "'' ''" xs rule: str_join.induct)
  case 1
  show ?case by (simp add: str_split_def)
next
  case (2 x)
  then have "clean x" by simp
  then show ?case
    using split_from_word [of x "[]" "[]"] by (simp add: str_split_def clean_def)
next
  case (3 x y ys)
  then have x: "clean x" and rest: "str_split (str_join '' '' (y # ys)) = y # ys" by simp_all
  have sp: "is_space CHR '' ''" by (simp add: is_space_def whitespace_def)
  have "str_split (str_join '' '' (x # y # ys)) = split_from x ('' '' @ str_join '' '' (y # ys))"
    using split_from_word [of x "[]"] x by (simp add: str_split_def clean_def)
  also have "\<dots> = x # split_from [] (str_join '' '' (y # ys))"
    using x sp by (simp add: clean_def)
  finally show ?case using rest by (simp add: str_split_def)
qed

lemma clean_append: "clean a \<Longrightarrow> clean b \<Longrightarrow> clean (a @ b)"
  by (auto simp: clean_def)

lemma merge_scan_pred:
  "merge_scan v cs new = (cs', new') \<Longrightarrow>
   (\<And>a b. P a \<Longrightarrow> P b \<Longrightarrow> a @ b \<in> set v \<Longrightarrow> P (a @ b)) \<Longrightarrow>
   \<forall>s \<in> set cs. P s \<Longrightarrow> \<forall>s \<in> set new. P s \<Longrightarrow>
   (\<forall>s \<in> set cs'. P s) \<and> (\<forall>s \<in> set new'. P s)"
proof (induction v cs new arbitrary: cs' new' rule: merge_scan.induct)
  case (1 v c0 c1 rest new)
  have P: "P c0" "P c1" "\<forall>s \<in> set rest. P s" using "1.prems"(3) by simp_all
  show ?case
  proof (cases "c0 @ c1 \<in> set v")
    case True
    then have m: "merge_scan v rest (new @ [c0 @ c1]) = (cs', new')" using "1.prems"(1) by simp
    have "P (c0 @ c1)" using P(1,2) True by (rule "1.prems"(2))
    then have "\<forall>s \<in> set (new @ [c0 @ c1]). P s"
      using "1.prems"(4) by simp
    from "1.IH"(1) [OF True m "1.prems"(2) P(3) this] show ?thesis by blast
  next
    case False
    then have m: "merge_scan v (c1 # rest) (new @ [c0]) = (cs', new')" using "1.prems"(1) by simp
    have a: "\<forall>s \<in> set (c1 # rest). P s" using P by simp
    have b: "\<forall>s \<in> set (new @ [c0]). P s" using "1.prems"(4) P(1) by simp
    from "1.IH"(2) [OF False m "1.prems"(2) a b] show ?thesis by blast
  qed
qed simp_all

lemma rewrite_characters_pred:
  assumes "\<And>a b. P a \<Longrightarrow> P b \<Longrightarrow> a @ b \<in> set v \<Longrightarrow> P (a @ b)" and "\<forall>s \<in> set cs. P s"
  shows "\<forall>s \<in> set (rewrite_characters v cs). P s"
proof -
  obtain cs' new' where m: "merge_scan v cs [] = (cs', new')" by (cases "merge_scan v cs []")
  from merge_scan_pred [of v cs "[]" cs' new' P, OF m assms(1) assms(2)]
  have *: "\<forall>s \<in> set cs'. P s" "\<forall>s \<in> set new'. P s" by simp_all
  show ?thesis
  proof (cases "length cs' = 1")
    case True
    then have "cs' ! 0 \<in> set cs'" by (metis nth_mem zero_less_one)
    with * have "P (cs' ! 0)" by blast
    with * True show ?thesis by (simp add: rewrite_characters_def m)
  next
    case False
    with * show ?thesis by (simp add: rewrite_characters_def m)
  qed
qed

lemma str_split_modify_token:
  "str_split (modify_token v token) = rewrite_characters v (str_split token)"
  unfolding modify_token_def
proof (rule str_split_join)
  show "\<forall>s \<in> set (rewrite_characters v (str_split token)). clean s"
  proof (rule rewrite_characters_pred)
    show "clean (a @ b)" if "clean a" "clean b" for a b :: string
      using that by (rule clean_append)
    show "\<forall>s \<in> set (str_split token). clean s"
      by (blast intro: str_split_clean)
  qed
qed

section \<open>Training steps\<close>

lemma known_symbols_init: "known_symbols (bpe_tokenizer_init tokens_of texts n)"
  by (auto simp: known_symbols_def bpe_tokenizer_init_def initialize_vocab_def Let_def)

lemma fold_update_keys:
  "fst ` set (fold (\<lambda>(token, freq). AList.update (f token) freq) xs acc) =
     fst ` set acc \<union> f ` fst ` set xs"
proof (induction xs arbitrary: acc)
  case Nil
  show ?case by simp
next
  case (Cons kv xs)
  obtain token freq where kv: "kv = (token, freq)" by (cases kv)
  show ?case
    by (simp add: kv Cons.IH dom_update)
qed

lemma modify_tokens_keys:
  "fst ` set (token_counts (modify_tokens self m)) =
     modify_token (vocab self) ` fst ` set (token_counts self)"
  by (simp add: modify_tokens_def fold_update_keys)

lemma merge_step_Inr:
  assumes "merge_step self = Inr self'"
  obtains pair where "find_most_common_pair self = Inr pair"
    and "self' = modify_tokens (modify_vocab self (fst pair @ snd pair)) (fst pair @ snd pair)"
proof (cases "find_most_common_pair self")
  case (Inl e)
  with assms show ?thesis by (simp add: merge_step_def)
next
  case (Inr pair)
  with assms have "self' = modify_tokens (modify_vocab self (fst pair @ snd pair)) (fst pair @ snd pair)"
    by (simp add: merge_step_def Let_def)
  with Inr show ?thesis by (rule that)
qed

lemma vocab_modify_tokens: "vocab (modify_tokens self m) = vocab self"
  by (simp add: modify_tokens_def)

lemma vocab_modify_vocab: "vocab (modify_vocab self m) = vocab self @ [m]"
  by (simp add: modify_vocab_def)

lemma token_counts_modify_vocab: "token_counts (modify_vocab self m) = token_counts self"
  by (simp add: modify_vocab_def)

lemma known_symbols_step:
  assumes "known_symbols self" and "merge_step self = Inr self'"
  shows "known_symbols self'"
proof -
  from assms(2) obtain pair where pair: "find_most_common_pair self = Inr pair"
    and self': "self' = modify_tokens (modify_vocab self (fst pair @ snd pair)) (fst pair @ snd pair)"
    by (rule merge_step_Inr)
  define v where "v = vocab self @ [fst pair @ snd pair]"
  have voc: "vocab self' = v"
    by (simp only: self' vocab_modify_tokens vocab_modify_vocab v_def)
  have keys: "fst ` set (token_counts self') = modify_token v ` fst ` set (token_counts self)"
    by (simp only: self' modify_tokens_keys vocab_modify_vocab token_counts_modify_vocab v_def)
  have "set (str_split token') \<subseteq> set v" if "(token', freq') \<in> set (token_counts self')" for token' freq'
  proof -
    from that have "token' \<in> fst ` set (token_counts self')" by force
    then obtain token where "token \<in> fst ` set (token_counts self)"
      and token': "token' = modify_token v token" unfolding keys by blast
    then obtain freq where old: "(token, freq) \<in> set (token_counts self)" by auto
    from assms(1) old have sub: "set (str_split token) \<subseteq> set (vocab self)"
      unfolding known_symbols_def by blast
    have "\<forall>s \<in> set (rewrite_characters v (str_split token)). s \<in> set v"
    proof (rule rewrite_characters_pred)
      show "\<forall>s \<in> set (str_split token). s \<in> set v" using sub by (auto simp: v_def)
    qed
    then show ?thesis
      unfolding token' str_split_modify_token by blast
  qed
  then show ?thesis
    unfolding known_symbols_def voc by blast
qed

lemma known_symbols_step_times:
  "known_symbols self \<Longrightarrow> step_times k self = Inr self' \<Longrightarrow> known_symbols self'"
proof (induction k arbitrary: self)
  case 0
  then show ?case by simp
next
  case (Suc k)
  from Suc.prems(2) obtain mid where mid: "merge_step self = Inr mid" "step_times k mid = Inr self'"
    by (auto simp: and_then_def split: sum.splits)
  from known_symbols_step [OF Suc.prems(1) mid(1)] mid(2) show ?case by (rule Suc.IH)
qed

lemma for_each_const: "for_each (\<lambda>i. merge_step) xs self = step_times (length xs) self"
  by (induction xs arbitrary: self) (auto simp: and_then_def split: sum.splits)

lemma merge_as_step_times:
  "merge self (Some n) =
     and_then (step_times (nat n) self) (\<lambda>self'. Inr (self'\<lparr>n_merges_done := n_merges_done self' + n\<rparr>))"
  by (simp add: merge_def for_each_const)

lemma merge_default: "merge self None = merge self (Some (n_merges self))"
  by (simp add: merge_def)

lemma known_symbols_merge:
  assumes "known_symbols self" and "merge self n0 = Inr self'"
  shows "known_symbols self'"
proof -
  define n where "n = (case n0 of None \<Rightarrow> n_merges self | Some k \<Rightarrow> k)"
  have "merge self n0 = merge self (Some n)"
    by (cases n0) (simp_all add: n_def merge_default)
  with assms(2) obtain mid where mid: "step_times (nat n) self = Inr mid"
    and self': "self' = mid\<lparr>n_merges_done := n_merges_done mid + n\<rparr>"
    by (auto simp: merge_as_step_times and_then_def split: sum.splits)
  from known_symbols_step_times [OF assms(1) mid] show ?thesis
    by (simp add: known_symbols_def self')
qed

lemma adjacent_pairs_short: "length xs \<le> 1 \<Longrightarrow> adjacent_pairs xs = []"
  by (cases xs) (auto simp: adjacent_pairs_def)

lemma adjacent_pairs_long: "2 \<le> length xs \<Longrightarrow> adjacent_pairs xs \<noteq> []"
  by (cases xs; cases "tl xs") (auto simp: adjacent_pairs_def)

lemma count_pairs_no_pair: "no_adjacent_pair self \<Longrightarrow> count_pairs (token_counts self) = []"
proof -
  assume "no_adjacent_pair self"
  then have "increments (token_counts self) = []"
    unfolding no_adjacent_pair_def increments_def
    by (auto simp: adjacent_pairs_short)
  then show ?thesis by (simp add: count_pairs_increments)
qed

lemma count_pairs_some_pair:
  assumes "\<not> no_adjacent_pair self"
  shows "count_pairs (token_counts self) \<noteq> []"
proof -
  from assms obtain token freq where tok: "(token, freq) \<in> set (token_counts self)"
    "2 \<le> length (str_split token)"
    unfolding no_adjacent_pair_def by force
  from adjacent_pairs_long [OF tok(2)] tok(1) have "scanned_pairs (token_counts self) \<noteq> []"
    unfolding scanned_pairs_def by force
  moreover have "fst ` set (count_pairs (token_counts self)) = set (scanned_pairs (token_counts self))"
    by (simp add: count_pairs_increments fold_add_count_dom increments_keys [symmetric])
  ultimately show ?thesis by auto
qed

lemma merge_step_no_pair: "no_adjacent_pair self \<Longrightarrow> merge_step self = Inl ValueError"
  by (simp add: merge_step_def find_most_common_pair_def count_pairs_no_pair)

lemma merge_step_some_pair:
  assumes "\<not> no_adjacent_pair self"
  shows "\<exists>self'. merge_step self = Inr self'"
proof -
  from count_pairs_some_pair [OF assms] obtain kv rest
    where "count_pairs (token_counts self) = kv # rest"
    by (cases "count_pairs (token_counts self)") auto
  then show ?thesis
    by (simp add: merge_step_def find_most_common_pair_def Let_def)
qed

lemma n_merges_done_modify: "n_merges_done (modify_tokens (modify_vocab self m) m') = n_merges_done self"
  by (simp add: modify_tokens_def modify_vocab_def)

lemma step_times_vocab:
  "step_times k self = Inr self' \<Longrightarrow>
   length (vocab self') = length (vocab self) + k \<and> n_merges_done self' = n_merges_done self"
proof (induction k arbitrary: self)
  case 0
  then show ?case by simp
next
  case (Suc k)
  then obtain mid where mid: "merge_step self = Inr mid" "step_times k mid = Inr self'"
    by (auto simp: and_then_def split: sum.splits)
  from mid(1) have "length (vocab mid) = length (vocab self) + 1 \<and> n_merges_done mid = n_merges_done self"
    by (rule merge_step_Inr) (simp add: vocab_modify_tokens vocab_modify_vocab n_merges_done_modify)
  with Suc.IH [OF mid(2)] show ?case by simp
qed

lemma exhausted_reached:
  "merge (bpe_tokenizer_init one_token [''a''] 10) (Some 1) = Inr exhausted"
  by code_simp

section \<open>The trainer\<close>

text \<open>
  Claim C10. When some key has two or more symbols, \<open>find_most_common_pair\<close> returns a
  pair of maximum aggregate weighted count, and among the pairs of that count the one the
  scan meets first: every pair met before it, scanning the keys in insertion order and
  each key left to right, has a strictly smaller count.
\<close>

theorem most_common_pair_first_maximum:
  assumes "\<exists>(token, value) \<in> set (token_counts self). 2 \<le> length (str_split token)"
  shows "\<exists>pair. find_most_common_pair self = Inr pair \<and>
     pair \<in> set (scanned_pairs (token_counts self)) \<and>
     (\<forall>other \<in> set (scanned_pairs (token_counts self)).
        weighted_count (token_counts self) other \<le> weighted_count (token_counts self) pair) \<and>
     (\<forall>other \<in> set (takeWhile (\<lambda>q. q \<noteq> pair) (scanned_pairs (token_counts self))).
        weighted_count (token_counts self) other < weighted_count (token_counts self) pair)"
proof -
  define counts where "counts = token_counts self"
  define al where "al = count_pairs counts"
  have al_fold: "al = fold add_count (increments counts) []"
    by (simp add: al_def count_pairs_increments)
  have dist: "distinct (map fst al)"
    unfolding al_fold by (rule fold_add_count_distinct) simp
  have dom: "fst ` set al = set (scanned_pairs counts)"
    unfolding al_fold by (simp add: fold_add_count_dom increments_keys [symmetric])
  have val: "w = weighted_count counts q" if "(q, w) \<in> set al" for q w
  proof -
    from that have "q \<in> set (scanned_pairs counts)" using dom by force
    from count_pairs_value [OF this] that dist show ?thesis
      by (simp add: al_def)
  qed
  from assms obtain token freq where tok: "(token, freq) \<in> set counts" "2 \<le> length (str_split token)"
    unfolding counts_def by auto
  then have "adjacent_pairs (str_split token) \<noteq> []"
    by (cases "str_split token"; cases "tl (str_split token)") (auto simp: adjacent_pairs_def)
  with tok(1) have "scanned_pairs counts \<noteq> []"
    unfolding scanned_pairs_def by force
  with dom have "al \<noteq> []" by auto
  from max_by_value_first_max [OF this]
  obtain i where i: "i < length al" "max_by_value al = Inr (fst (al ! i))"
    "\<And>j. j < length al \<Longrightarrow> snd (al ! j) \<le> snd (al ! i)"
    "\<And>j. j < i \<Longrightarrow> snd (al ! j) < snd (al ! i)"
    by blast
  define p where "p = fst (al ! i)"
  have p_in: "(p, snd (al ! i)) \<in> set al"
    using i(1) unfolding p_def by (metis nth_mem prod.collapse)
  have p_val: "snd (al ! i) = weighted_count counts p"
    by (rule val [OF p_in])
  have p_scanned: "p \<in> set (scanned_pairs counts)"
    using p_in dom by force
  have le: "weighted_count counts q \<le> weighted_count counts p" if "q \<in> set (scanned_pairs counts)" for q
  proof -
    from that dom have "q \<in> fst ` set al" by simp
    then obtain w where "(q, w) \<in> set al" by auto
    then obtain j where j: "j < length al" "al ! j = (q, w)" by (auto simp: in_set_conv_nth)
    from i(3) [OF j(1)] j(2) val [OF \<open>(q, w) \<in> set al\<close>] p_val show ?thesis by simp
  qed
  have lt: "weighted_count counts q < weighted_count counts p"
    if "q \<in> set (takeWhile (\<lambda>q. q \<noteq> p) (scanned_pairs counts))" for q
  proof -
    from p_scanned have "p \<in> fst ` set (increments counts)"
      by (simp add: increments_keys [symmetric])
    from keys_before_first [OF this] obtain front more
      where keys: "map fst al = front @ p # more"
        and front: "set front = set (takeWhile (\<lambda>q. q \<noteq> p) (scanned_pairs counts))"
      unfolding al_fold increments_keys by blast
    have "map fst al ! i = p" using i(1) by (simp add: p_def)
    moreover have "map fst al ! length front = p" by (simp add: keys)
    moreover have "length front < length (map fst al)" by (simp add: keys)
    ultimately have i_eq: "i = length front"
      using dist i(1) by (metis length_map nth_eq_iff_index_eq)
    from that front have "q \<in> set front" by simp
    then obtain j where j: "j < length front" "front ! j = q"
      by (auto simp: in_set_conv_nth)
    then have jl: "j < length al" using i(1) i_eq by simp
    have "fst (al ! j) = q"
      using j jl keys by (metis nth_append nth_map)
    then have "(q, snd (al ! j)) \<in> set al"
      using jl by (metis nth_mem prod.collapse)
    from val [OF this] i(4) [of j] j(1) i_eq p_val show ?thesis by simp
  qed
  show ?thesis
    using i(2) p_scanned le lt
    unfolding find_most_common_pair_def counts_def [symmetric] al_def [symmetric] p_def [symmetric]
    by (intro exI [of _ p]) simp
qed

theorem most_common_pair_first_maximum_witness:
  "(\<exists>(token, value) \<in> set (token_counts example_tokenizer). 2 \<le> length (str_split token)) \<and>
   (\<exists>pair. pair = (''e'', ''r'') \<and>
      find_most_common_pair example_tokenizer = Inr pair \<and>
      pair \<in> set (scanned_pairs (token_counts example_tokenizer)) \<and>
      (\<forall>other \<in> set (scanned_pairs (token_counts example_tokenizer)).
         weighted_count (token_counts example_tokenizer) other
           \<le> weighted_count (token_counts example_tokenizer) pair) \<and>
      (\<forall>other \<in> set (takeWhile (\<lambda>q. q \<noteq> pair) (scanned_pairs (token_counts example_tokenizer))).
         weighted_count (token_counts example_tokenizer) other
           < weighted_count (token_counts example_tokenizer) pair))"
proof -
  have h: "\<exists>(token, value) \<in> set (token_counts example_tokenizer). 2 \<le> length (str_split token)"
    by code_simp
  have p: "find_most_common_pair example_tokenizer = Inr (''e'', ''r'')"
    by code_simp
  from most_common_pair_first_maximum [OF h] p h show ?thesis
    by auto
qed

text \<open>
  Claim C7. In every reachable state, each symbol of each key of \<open>token_counts\<close> is a
  member of \<open>vocab\<close>: the constructor establishes this and every training step keeps it.
\<close>

theorem symbols_in_vocabulary:
  assumes "reachable tokens_of self"
  shows "\<forall>(token, value) \<in> set (token_counts self).
           \<forall>symbol \<in> set (str_split token). symbol \<in> set (vocab self)"
proof -
  from assms have "known_symbols self"
  proof induction
    case (constructed texts n)
    show ?case by (rule known_symbols_init)
  next
    case (stepped self self')
    then show ?case by (blast intro: known_symbols_step)
  next
    case (merged self n0 self')
    then show ?case by (blast intro: known_symbols_merge)
  qed
  then show ?thesis by (auto simp: known_symbols_def)
qed

theorem symbols_in_vocabulary_witness:
  "reachable one_token example_tokenizer \<and>
   (\<exists>trained. merge example_tokenizer (Some 8) = Inr trained \<and> reachable one_token trained \<and>
      (\<forall>(token, value) \<in> set (token_counts trained).
         \<forall>symbol \<in> set (str_split token). symbol \<in> set (vocab trained)))"
proof -
  have r0: "reachable one_token example_tokenizer"
    unfolding example_tokenizer_def by (rule reachable.constructed)
  have "\<not> isl (merge example_tokenizer (Some 8))" by code_simp
  then obtain trained where m: "merge example_tokenizer (Some 8) = Inr trained"
    by (cases "merge example_tokenizer (Some 8)") auto
  from r0 m have r8: "reachable one_token trained" by (rule reachable.merged)
  from symbols_in_vocabulary [OF r8] r0 m r8 show ?thesis by blast
qed

text \<open>
  Claim C3. In a state where no key has two adjacent symbols the training step fails, and
  so does \<open>merge\<close> for any positive number of merges; the failure is the
  \<open>ValueError\<close> of \<open>max\<close> on the empty mapping of pairs. In every other state the step
  succeeds. \<open>merge\<close> is the step applied \<open>n\<close> times in a row followed by the update of the
  counter, with \<open>n_merges\<close> for \<open>n\<close> by default; when it succeeds the vocabulary has grown
  by exactly \<open>n\<close> symbols.
\<close>

theorem no_pair_fails_and_merge_counts_steps:
  "(no_adjacent_pair self \<longrightarrow>
      merge_step self = Inl ValueError \<and>
      (\<forall>n. 0 < n \<longrightarrow> merge self (Some n) = Inl ValueError)) \<and>
   (\<not> no_adjacent_pair self \<longrightarrow> (\<exists>self'. merge_step self = Inr self')) \<and>
   merge self None = merge self (Some (n_merges self)) \<and>
   (\<forall>n. merge self (Some n) =
      and_then (step_times (nat n) self)
        (\<lambda>self'. Inr (self'\<lparr>n_merges_done := n_merges_done self' + n\<rparr>))) \<and>
   (\<forall>n self'. merge self (Some n) = Inr self' \<longrightarrow>
      length (vocab self') = length (vocab self) + nat n \<and>
      n_merges_done self' = n_merges_done self + n)"
proof (intro conjI impI allI)
  assume "no_adjacent_pair self"
  then show "merge_step self = Inl ValueError" by (rule merge_step_no_pair)
next
  fix n :: int
  assume np: "no_adjacent_pair self" and "0 < n"
  then obtain k where "nat n = Suc k" by (cases "nat n") auto
  then show "merge self (Some n) = Inl ValueError"
    by (simp add: merge_as_step_times merge_step_no_pair [OF np])
next
  assume "\<not> no_adjacent_pair self"
  then show "\<exists>self'. merge_step self = Inr self'" by (rule merge_step_some_pair)
next
  show "merge self None = merge self (Some (n_merges self))" by (rule merge_default)
next
  fix n
  show "merge self (Some n) =
      and_then (step_times (nat n) self)
        (\<lambda>self'. Inr (self'\<lparr>n_merges_done := n_merges_done self' + n\<rparr>))"
    by (rule merge_as_step_times)
next
  fix n self'
  assume m: "merge self (Some n) = Inr self'"
  then obtain mid where mid: "step_times (nat n) self = Inr mid"
    and self': "self' = mid\<lparr>n_merges_done := n_merges_done mid + n\<rparr>"
    by (auto simp: merge_as_step_times and_then_def split: sum.splits)
  show "length (vocab self') = length (vocab self) + nat n"
    using step_times_vocab [OF mid] by (simp add: self')
  have "n_merges_done mid = n_merges_done self"
    using step_times_vocab [OF mid] by simp
  then show "n_merges_done self' = n_merges_done self + n"
    by (simp add: self')
qed

theorem no_pair_fails_and_merge_counts_steps_witness:
  "no_adjacent_pair exhausted \<and>
   merge_step exhausted = Inl ValueError \<and>
   merge exhausted (Some 3) = Inl ValueError \<and>
   \<not> no_adjacent_pair example_tokenizer \<and>
   (\<exists>self'. merge_step example_tokenizer = Inr self') \<and>
   (\<exists>self'. merge example_tokenizer (Some 8) = Inr self' \<and>
      length (vocab self') = length (vocab example_tokenizer) + nat 8 \<and>
      n_merges_done self' = n_merges_done example_tokenizer + 8)"
proof -
  have h1: "no_adjacent_pair exhausted" by code_simp
  have h2: "\<not> no_adjacent_pair example_tokenizer" by code_simp
  have h3: "(0::int) < 3" by simp
  have "\<not> isl (merge example_tokenizer (Some 8))" by code_simp
  then obtain trained where h4: "merge example_tokenizer (Some 8) = Inr trained"
    by (cases "merge example_tokenizer (Some 8)") auto
  from no_pair_fails_and_merge_counts_steps [of "exhausted"]
    no_pair_fails_and_merge_counts_steps [of example_tokenizer] h1 h2 h3 h4
  show ?thesis by blast
qed

text \<open>
  Claim C6. On the corpus low (5), lowest (2), newer (6), wider (3), new (2) the first
  merge is of \<open>e\<close> and \<open>r\<close> and the second of \<open>er\<close> and the end-of-word marker; the
  eight merges add the symbols the notebook shows.
\<close>

theorem textbook_first_two_merges:
  "find_most_common_pair example_tokenizer = Inr (''e'', ''r'') \<and>
   and_then (merge_step example_tokenizer) find_most_common_pair = Inr (''er'', ''</W>'') \<and>
   and_then (merge example_tokenizer (Some 8))
     (\<lambda>trained. Inr (drop (length (vocab example_tokenizer)) (vocab trained))) =
       Inr [''er'', ''er</W>'', ''ne'', ''new'', ''lo'', ''low'', ''newer</W>'', ''low</W>'']"
  by code_simp

text \<open>
  Claim C2 fails on the code. After two merges on the corpus \<open>marker_text\<close> the selected
  pair is \<open></W\<close> followed by the marker \<open></W>\<close>. The scan rewrites the first key as the
  claim says, but in the second key it also joins \<open></W\<close> and \<open>>\<close>, a pair that was not
  selected, because their concatenation is the marker and the marker is in the
  vocabulary. Replacing only the selected pair leaves that key as it is (last component).
\<close>

theorem scan_merges_unselected_pair:
  "and_then (merge (bpe_tokenizer_init one_token marker_text 10) (Some 2)) (\<lambda>self.
     and_then (find_most_common_pair self) (\<lambda>pair.
     and_then (merge_step self) (\<lambda>self'.
       Inr (token_counts self, pair, token_counts self',
            replace_pair_in_keys (fst pair) (snd pair) (token_counts self))))) =
   Inr ([(''</W </W>'', 1), (''</W > </W>'', 1)],
        (''</W'', ''</W>''),
        [(''</W</W>'', 1), (''</W> </W>'', 1)],
        [(''</W</W>'', 1), (''</W > </W>'', 1)])"
  by code_simp


end
